theory Spec2Isabelle
  imports Main "HOL-Library.AList" "HOL-Library.Sublist"
begin

section \<open>Python strings\<close>

text \<open>
  A Python \<open>str\<close> is modelled as a \<open>string\<close> (a list of characters). Positions are
  natural numbers; the results of \<open>str.find\<close> and \<open>str.rfind\<close> are integers, because the
  source computes with the "not found" result \<open>-1\<close>.
\<close>

definition sq :: char where
  "sq = CHR 0x27"

definition dq :: char where
  "dq = CHR 0x22"

definition backslash :: char where
  "backslash = CHR 0x5C"

definition newline :: char where
  "newline = CHR 0x0A"

definition carriage_return :: char where
  "carriage_return = CHR 0x0D"

text \<open>\<open>str.isspace\<close> on the code points below 256.\<close>

definition isspace :: "char \<Rightarrow> bool" where
  "isspace c = ((of_char c :: nat) \<in> set [9, 10, 11, 12, 13, 28, 29, 30, 31, 32, 133, 160])"

definition lstrip :: "string \<Rightarrow> string" where
  "lstrip text = dropWhile isspace text"

definition rstrip :: "string \<Rightarrow> string" where
  "rstrip text = rev (dropWhile isspace (rev text))"

definition strip :: "string \<Rightarrow> string" where
  "strip text = lstrip (rstrip text)"

definition startswith :: "string \<Rightarrow> string \<Rightarrow> bool" where
  "startswith text p = prefix p text"

text \<open>\<open>text.find(sub, start)\<close>: the lowest position from \<open>start\<close> on where \<open>sub\<close>
  occurs, or \<open>-1\<close>.\<close>

fun find_aux :: "string \<Rightarrow> string \<Rightarrow> nat \<Rightarrow> int" where
  "find_aux sub [] i = (if sub = [] then int i else - 1)"
| "find_aux sub (c # cs) i =
     (if prefix sub (c # cs) then int i else find_aux sub cs (Suc i))"

definition str_find :: "string \<Rightarrow> string \<Rightarrow> nat \<Rightarrow> int" where
  "str_find text sub start =
     (if length text < start then - 1 else find_aux sub (drop start text) start)"

text \<open>The normalisation Python applies to a slice bound: a negative bound counts from
  the end, and every bound is clipped to the string.\<close>

definition slice_index :: "nat \<Rightarrow> int \<Rightarrow> nat" where
  "slice_index n i = (if i < 0 then nat (max 0 (i + int n)) else min (nat i) n)"

text \<open>\<open>text[a:b]\<close> and \<open>text[a:]\<close>.\<close>

definition py_slice :: "string \<Rightarrow> int \<Rightarrow> int \<Rightarrow> string" where
  "py_slice text a b =
     (let s = slice_index (length text) a; e = slice_index (length text) b
      in take (e - s) (drop s text))"

definition py_slice_from :: "string \<Rightarrow> int \<Rightarrow> string" where
  "py_slice_from text a = drop (slice_index (length text) a) text"

text \<open>\<open>text.rfind(sub, start, end)\<close>: the highest position of an occurrence of \<open>sub\<close>
  that lies inside \<open>text[start:end]\<close>, or \<open>-1\<close>.\<close>

definition str_rfind :: "string \<Rightarrow> string \<Rightarrow> int \<Rightarrow> int \<Rightarrow> int" where
  "str_rfind text sub start end =
     (let s = slice_index (length text) start;
          e = slice_index (length text) end;
          found = filter (\<lambda>i. i + length sub \<le> e \<and> take (length sub) (drop i text) = sub)
                    [s ..< Suc e]
      in if found = [] then - 1 else int (last found))"

text \<open>\<open>text.replace(old, new)\<close>: the occurrences of \<open>old\<close> are replaced from left to
  right, without overlap. The counter is the number of characters of a replaced occurrence
  that are still to be skipped.\<close>

fun replace_from :: "string \<Rightarrow> string \<Rightarrow> nat \<Rightarrow> string \<Rightarrow> string" where
  "replace_from old new k [] = []"
| "replace_from old new (Suc k) (c # cs) = replace_from old new k cs"
| "replace_from old new 0 (c # cs) =
     (if prefix old (c # cs) then new @ replace_from old new (length old - 1) cs
      else c # replace_from old new 0 cs)"

definition str_replace :: "string \<Rightarrow> string \<Rightarrow> string \<Rightarrow> string" where
  "str_replace text old new =
     (if old = [] then new @ concat (map (\<lambda>c. c # new) text)
      else replace_from old new 0 text)"

section \<open>The function header test\<close>

text \<open>\<open>is_start_of_function\<close>: the text, without its leading whitespace, starts with
  \<open>def\<close> or \<open>async def\<close>. The argument is a string, so the \<open>isinstance\<close> test holds.\<close>

definition is_start_of_function :: "string \<Rightarrow> bool" where
  "is_start_of_function text =
     (let text = lstrip text
      in list_ex (\<lambda>p. startswith text p) [''def'', ''async def''])"

section \<open>FunctionInfo\<close>

record func_info =
  has_info :: bool
  func_text :: string
  args_text :: string
  n_indent :: int
  arg_name_list :: "string list"
  arg_type_list :: "string option list"
  arg_value_list :: "string option list"
  return_type :: "string option"

text \<open>\<open>FunctionInfo.__init__\<close>.\<close>

definition FunctionInfo_init :: func_info where
  "FunctionInfo_init =
     \<lparr>has_info = False, func_text = [], args_text = [], n_indent = 0,
      arg_name_list = [], arg_type_list = [], arg_value_list = [], return_type = None\<rparr>"

text \<open>Every exception the source raises is an \<open>IndexError\<close>; the constructors keep the
  message and the position it reports. The last one is the error of \<open>del xs[0]\<close> on an
  empty list.\<close>

datatype IndexError =
  NoMatchingCloseQuote nat
| NoMatchingClosingParens nat
| NoMatchingOpeningParens nat
| ListIndexOutOfRange

text \<open>A dictionary from opening positions to closing positions, as an association list;
  \<open>pos[k] = v\<close> is \<open>AList.update k v pos\<close>.\<close>

type_synonym pairs = "(nat \<times> nat) list"

subsection \<open>is_char_in_pairs\<close>

fun is_char_in_pairs :: "nat \<Rightarrow> pairs \<Rightarrow> bool" where
  "is_char_in_pairs pos_char [] = False"
| "is_char_in_pairs pos_char ((pos_left, pos_right) # rest) =
     (if pos_left < pos_char \<and> pos_char < pos_right then True
      else is_char_in_pairs pos_char rest)"

subsection \<open>find_quote_position\<close>

text \<open>
  The loop over \<open>enumerate(text)\<close>. The variables \<open>is_found_left_quote\<close>, \<open>quote\<close> and
  \<open>left_pos\<close> are one optional pair: \<open>None\<close> when no left quote is open, \<open>Some (quote,
  left_pos)\<close> when one is. In the second case \<open>left_pos < i\<close>, so \<open>text[i - 1]\<close> reads
  inside the text.
\<close>

fun quote_loop ::
  "string \<Rightarrow> (nat \<times> char) list \<Rightarrow> (char \<times> nat) option \<Rightarrow> pairs
     \<Rightarrow> pairs \<times> (char \<times> nat) option" where
  "quote_loop text [] st pos = (pos, st)"
| "quote_loop text ((i, c) # rest) None pos =
     (if c = sq \<or> c = dq then quote_loop text rest (Some (c, i)) pos
      else quote_loop text rest None pos)"
| "quote_loop text ((i, c) # rest) (Some (quote, left_pos)) pos =
     (if c = quote \<and> text ! (i - 1) \<noteq> backslash
      then quote_loop text rest None (AList.update left_pos i pos)
      else quote_loop text rest (Some (quote, left_pos)) pos)"

definition find_quote_position :: "string \<Rightarrow> IndexError + pairs" where
  "find_quote_position text =
     (case quote_loop text (enumerate 0 text) None [] of
        (pos, None) \<Rightarrow> Inr pos
      | (pos, Some (quote, left_pos)) \<Rightarrow> Inl (NoMatchingCloseQuote left_pos))"

subsection \<open>find_bracket_position\<close>

text \<open>The stack \<open>pstack\<close> has its top at the head of the list.\<close>

fun bracket_loop ::
  "char \<Rightarrow> char \<Rightarrow> pairs \<Rightarrow> (nat \<times> char) list \<Rightarrow> pairs \<Rightarrow> nat list
     \<Rightarrow> IndexError + pairs \<times> nat list" where
  "bracket_loop bracket_left bracket_right pos_quote [] pos pstack = Inr (pos, pstack)"
| "bracket_loop bracket_left bracket_right pos_quote ((i, c) # rest) pos pstack =
     (if c = bracket_left \<and> \<not> is_char_in_pairs i pos_quote
      then bracket_loop bracket_left bracket_right pos_quote rest pos (i # pstack)
      else if c = bracket_right \<and> \<not> is_char_in_pairs i pos_quote
      then (case pstack of
              [] \<Rightarrow> Inl (NoMatchingClosingParens i)
            | p # pstack' \<Rightarrow>
                bracket_loop bracket_left bracket_right pos_quote rest
                  (AList.update p i pos) pstack')
      else bracket_loop bracket_left bracket_right pos_quote rest pos pstack)"

definition find_bracket_position ::
  "string \<Rightarrow> char \<Rightarrow> char \<Rightarrow> pairs \<Rightarrow> IndexError + pairs" where
  "find_bracket_position text bracket_left bracket_right pos_quote =
     (case bracket_loop bracket_left bracket_right pos_quote (enumerate 0 text) [] [] of
        Inl e \<Rightarrow> Inl e
      | Inr (pos, []) \<Rightarrow> Inr pos
      | Inr (pos, p # pstack') \<Rightarrow> Inl (NoMatchingOpeningParens p))"

subsection \<open>split_arg_to_name_type_value\<close>

text \<open>The body of the loop, for one argument text: its name, type and value.\<close>

definition name_type_value :: "string \<Rightarrow> string \<times> string option \<times> string option" where
  "name_type_value arg =
     (let pos_colon = str_find arg '':'' 0;
          pos_equal = str_find arg ''='' 0;
          has_value = (pos_equal > - 1);
          has_type = (pos_colon > - 1 \<and> (\<not> has_value \<or> pos_equal > pos_colon))
      in if has_value \<and> has_type then
           (strip (py_slice arg 0 pos_colon),
            Some (strip (py_slice arg (pos_colon + 1) pos_equal)),
            Some (strip (py_slice_from arg (pos_equal + 1))))
         else if \<not> has_value \<and> has_type then
           (strip (py_slice arg 0 pos_colon),
            Some (strip (py_slice_from arg (pos_colon + 1))),
            None)
         else if has_value \<and> \<not> has_type then
           (strip (py_slice arg 0 pos_equal),
            None,
            Some (strip (py_slice_from arg (pos_equal + 1))))
         else (arg, None, None))"

fun split_arg_to_name_type_value :: "func_info \<Rightarrow> string list \<Rightarrow> func_info" where
  "split_arg_to_name_type_value self [] = self"
| "split_arg_to_name_type_value self (arg # args_list) =
     (case name_type_value arg of
        (arg_name, arg_type, arg_value) \<Rightarrow>
          split_arg_to_name_type_value
            (self\<lparr>arg_name_list := arg_name_list self @ [arg_name],
                  arg_type_list := arg_type_list self @ [arg_type],
                  arg_value_list := arg_value_list self @ [arg_value]\<rparr>)
            args_list)"

subsection \<open>split_args_text_to_list\<close>

text \<open>
  The \<open>while 1\<close> loop: its state is \<open>idx_find_start\<close>, \<open>idx_arg_start\<close> and \<open>args_list\<close>;
  it returns the last two when \<open>find\<close> gives \<open>-1\<close>.
\<close>

function split_loop ::
  "string \<Rightarrow> pairs \<Rightarrow> pairs \<Rightarrow> pairs \<Rightarrow> pairs \<Rightarrow> nat \<Rightarrow> nat \<Rightarrow> string list
     \<Rightarrow> string list \<times> nat" where
  "split_loop text pos_round pos_curly pos_square pos_quote
       idx_find_start idx_arg_start args_list =
     (let pos_comma = str_find text '','' idx_find_start
      in if pos_comma = - 1 then (args_list, idx_arg_start)
         else if is_char_in_pairs (nat pos_comma) pos_round \<or>
                 is_char_in_pairs (nat pos_comma) pos_curly \<or>
                 is_char_in_pairs (nat pos_comma) pos_square \<or>
                 is_char_in_pairs (nat pos_comma) pos_quote
         then split_loop text pos_round pos_curly pos_square pos_quote
                (nat pos_comma + 1) idx_arg_start args_list
         else split_loop text pos_round pos_curly pos_square pos_quote
                (nat pos_comma + 1) (nat pos_comma + 1)
                (args_list @ [py_slice text (int idx_arg_start) pos_comma]))"
  by pat_completeness auto
termination
proof -
  have aux: "find_aux sub xs i = - 1 \<or>
      (int i \<le> find_aux sub xs i \<and> find_aux sub xs i < int i + int (length xs))"
    if "sub \<noteq> []" for sub xs i
  proof (induction xs arbitrary: i)
    case Nil
    with that show ?case by simp
  next
    case (Cons c cs)
    then show ?case using Cons [of "Suc i"] by auto
  qed
  have found: "start \<le> nat (str_find t '','' start) \<and> nat (str_find t '','' start) < length t"
    if "str_find t '','' start \<noteq> - 1" for t start
    using that aux [of "'',''" "drop start t" start]
    by (auto simp: str_find_def split: if_splits)
  show ?thesis
  proof (relation "measure (\<lambda>(t, r, c, s, q, f, a, l). Suc (length t) - f)")
    show "wf (measure (\<lambda>(t, r, c, s, q, f, a, l). Suc (length t) - f))"
      by simp
  qed (use found in \<open>fastforce+\<close>)
qed

declare split_loop.simps [simp del]

definition split_args_text_to_list :: "string \<Rightarrow> string list option" where
  "split_args_text_to_list text =
     (case find_quote_position text of
        Inl e \<Rightarrow> None
      | Inr pos_quote \<Rightarrow>
     (case find_bracket_position text (CHR ''('') (CHR '')'') pos_quote of
        Inl e \<Rightarrow> None
      | Inr pos_round \<Rightarrow>
     (case find_bracket_position text (CHR ''{'') (CHR ''}'') pos_quote of
        Inl e \<Rightarrow> None
      | Inr pos_curly \<Rightarrow>
     (case find_bracket_position text (CHR ''['') (CHR '']'') pos_quote of
        Inl e \<Rightarrow> None
      | Inr pos_square \<Rightarrow>
     (case split_loop text pos_round pos_curly pos_square pos_quote 0 0 [] of
        (args_list, idx_arg_start) \<Rightarrow>
          Some (if idx_arg_start < length text
                then args_list @ [py_slice_from text (int idx_arg_start)]
                else args_list))))))"

subsection \<open>parse\<close>

text \<open>
  The regular expression \<open>->[ ]*([a-zA-Z0-9_,()\[\] ]*):$\<close>. The class of the group has
  the space in it and neither the colon nor the newline, so a match at a position is
  unique: after the arrow come the characters of the class, then one colon, then the end
  of the text (or one last newline, which \<open>$\<close> allows). The greedy \<open>[ ]*\<close> takes the
  leading spaces, and the group is what follows them. \<open>return_type_match\<close> gives group 0
  and group 1 of a match that starts at the head of the text; \<open>re_search\<close> tries the
  positions from left to right, as \<open>re.search\<close> does.
\<close>

definition return_type_char :: "char \<Rightarrow> bool" where
  "return_type_char c =
     (let n = (of_char c :: nat)
      in (97 \<le> n \<and> n \<le> 122) \<or> (65 \<le> n \<and> n \<le> 90) \<or> (48 \<le> n \<and> n \<le> 57) \<or>
         c \<in> set ''_,()[] '')"

definition return_type_match :: "string \<Rightarrow> (string \<times> string) option" where
  "return_type_match t =
     (if \<not> prefix ''->'' t then None
      else
        let rest = drop 2 t;
            r = (if rest \<noteq> [] \<and> last rest = newline then butlast rest else rest)
        in if r \<noteq> [] \<and> last r = CHR '':'' \<and> list_all return_type_char (butlast r)
           then Some (''->'' @ r, dropWhile (\<lambda>c. c = CHR '' '') (butlast r))
           else None)"

fun re_search :: "string \<Rightarrow> (string \<times> string) option" where
  "re_search [] = return_type_match []"
| "re_search (c # cs) =
     (case return_type_match (c # cs) of
        Some m \<Rightarrow> Some m
      | None \<Rightarrow> re_search cs)"

text \<open>\<open>FunctionInfo.parse\<close>: the object \<open>self\<close> before the call, and the text; the result
  is the object after the call.\<close>

definition parse :: "func_info \<Rightarrow> string \<Rightarrow> func_info" where
  "parse self0 text0 =
     (let self = FunctionInfo_init
      in if \<not> is_start_of_function text0 then self
         else
           let self = self\<lparr>n_indent := str_find text0 (lstrip text0) 0\<rparr>;
               text = strip text0;
               text = str_replace text [carriage_return, newline] [];
               text = str_replace text [newline] [];
               (rtype, text_end) =
                 (case re_search text of
                    Some (group0, group1) \<Rightarrow>
                      (Some group1, str_rfind text group0 0 (int (length text)))
                  | None \<Rightarrow> (None, int (length text)));
               self = self\<lparr>return_type := rtype\<rparr>;
               pos_args_start = str_find text ''('' 0 + 1;
               pos_args_end = str_rfind text '')'' pos_args_start text_end;
               self = self\<lparr>args_text := py_slice text pos_args_start pos_args_end\<rparr>
           in case split_args_text_to_list (args_text self) of
                None \<Rightarrow> self
              | Some args_list \<Rightarrow>
                  split_arg_to_name_type_value (self\<lparr>has_info := True\<rparr>) args_list)"

section \<open>DocstringExtension\<close>

subsection \<open>_generate_numpy_doc\<close>

text \<open>\<open>del xs[0]\<close>.\<close>

definition del_first :: "'a list \<Rightarrow> IndexError + 'a list" where
  "del_first xs = (case xs of [] \<Rightarrow> Inl ListIndexOutOfRange | x # rest \<Rightarrow> Inr rest)"

text \<open>Python's truth test of an optional string: \<open>None\<close> and the empty string are false.\<close>

definition truthy :: "string option \<Rightarrow> bool" where
  "truthy s = (case s of None \<Rightarrow> False | Some t \<Rightarrow> t \<noteq> [])"

definition spaces :: "int \<Rightarrow> string" where
  "spaces n = replicate (nat n) (CHR '' '')"

text \<open>The loop over \<open>zip(arg_names, arg_types, arg_values)\<close> that builds \<open>arg_text\<close>.\<close>

fun arg_text_loop ::
  "string \<Rightarrow> string \<Rightarrow> string \<Rightarrow> string
     \<Rightarrow> (string \<times> string option \<times> string option) list \<Rightarrow> string \<Rightarrow> string" where
  "arg_text_loop indent1 indent2 quote3 quote3_other [] arg_text = arg_text"
| "arg_text_loop indent1 indent2 quote3 quote3_other
       ((arg_name, arg_type, arg_value) # rest) arg_text =
     (let arg_text = arg_text @ indent1 @ arg_name @ '' : '';
          arg_text = (case arg_type of
                        Some t \<Rightarrow> if t \<noteq> [] then arg_text @ t else arg_text @ ''[type]''
                      | None \<Rightarrow> arg_text @ ''[type]'');
          arg_text = (if truthy arg_value then arg_text @ '', optional'' else arg_text);
          arg_text = arg_text @ [newline] @ indent2 @ ''[description]'';
          arg_text = (case arg_value of
                        Some v \<Rightarrow>
                          if v \<noteq> [] then
                            arg_text @ '' (the default is '' @
                              str_replace v quote3 quote3_other @ '')''
                          else arg_text
                      | None \<Rightarrow> arg_text);
          arg_text = arg_text @ [newline]
      in arg_text_loop indent1 indent2 quote3 quote3_other rest arg_text)"

text \<open>The text built from the lists as they are after the \<open>self\<close> entry has been deleted.\<close>

definition numpy_doc_text ::
  "string list \<Rightarrow> string option list \<Rightarrow> string option list \<Rightarrow> int \<Rightarrow> string option
     \<Rightarrow> string \<Rightarrow> string \<Rightarrow> string" where
  "numpy_doc_text arg_names arg_types arg_values indent rtype quote3 quote3_other =
     (let indent1 = spaces (4 + indent);
          indent2 = spaces (8 + indent);
          numpy_doc = [newline];
          numpy_doc = (if length arg_names > 0
                       then numpy_doc @ [newline] @ indent1 @ ''Parameters'' @
                            [newline] @ indent1 @ ''----------'' @ [newline]
                       else numpy_doc);
          arg_text = arg_text_loop indent1 indent2 quote3 quote3_other
                       (zip arg_names (zip arg_types arg_values)) [];
          numpy_doc = numpy_doc @ arg_text;
          numpy_doc = numpy_doc @ [newline] @ indent1 @ ''Returns'';
          numpy_doc = numpy_doc @ [newline] @ indent1 @ ''-------'';
          numpy_doc = (case rtype of
                         Some t \<Rightarrow>
                           if t \<noteq> [] then
                             numpy_doc @ [newline] @ indent1 @ t @
                             [newline] @ indent2 @ ''[description]'' @ [newline]
                           else numpy_doc @ [newline] @ indent1 @ ''None'' @ [newline]
                       | None \<Rightarrow> numpy_doc @ [newline] @ indent1 @ ''None'' @ [newline])
      in numpy_doc @ [newline] @ indent1 @ quote3)"

text \<open>
  \<open>_generate_numpy_doc\<close>. The names \<open>arg_names\<close>, \<open>arg_types\<close> and \<open>arg_values\<close> are
  aliases of the three lists of \<open>func_info\<close>, so the three \<open>del\<close> statements change the
  object: the result is the text and the object after the call.
\<close>

definition generate_numpy_doc ::
  "func_info \<Rightarrow> string \<Rightarrow> string \<Rightarrow> IndexError + string \<times> func_info" where
  "generate_numpy_doc func_info quote3 quote3_other =
     (case
        (if length (arg_name_list func_info) > 0 \<and> hd (arg_name_list func_info) = ''self''
         then
           (case del_first (arg_name_list func_info) of
              Inl e \<Rightarrow> Inl e
            | Inr arg_names \<Rightarrow>
           (case del_first (arg_type_list func_info) of
              Inl e \<Rightarrow> Inl e
            | Inr arg_types \<Rightarrow>
           (case del_first (arg_value_list func_info) of
              Inl e \<Rightarrow> Inl e
            | Inr arg_values \<Rightarrow>
                Inr (func_info\<lparr>arg_name_list := arg_names, arg_type_list := arg_types,
                                arg_value_list := arg_values\<rparr>))))
         else Inr func_info)
      of
        Inl e \<Rightarrow> Inl e
      | Inr func_info' \<Rightarrow>
          Inr (numpy_doc_text (arg_name_list func_info') (arg_type_list func_info')
                 (arg_value_list func_info') (n_indent func_info') (return_type func_info')
                 quote3 quote3_other,
               func_info'))"

subsection \<open>_generate_docstring\<close>

text \<open>
  The part of \<open>_generate_docstring\<close> after the call of \<open>parse\<close>: the docstring of a parsed
  object, \<open>None\<close> when nothing is produced.
\<close>

definition docstring_of_info ::
  "string \<Rightarrow> func_info \<Rightarrow> string \<Rightarrow> string \<Rightarrow> IndexError + string option" where
  "docstring_of_info doc_type func_info quote3 quote3_other =
     (if has_info func_info then
        (if doc_type = ''one-line'' then Inr (Some quote3)
         else if doc_type = ''numpy'' then
           (case generate_numpy_doc func_info quote3 quote3_other of
              Inl e \<Rightarrow> Inl e
            | Inr (numpy_doc, func_info') \<Rightarrow> Inr (Some numpy_doc))
         else Inr None)
      else Inr None)"

text \<open>
  \<open>_generate_docstring\<close>. The text that \<open>_get_function_definition_from_cursor\<close> reads from
  the editor is the argument \<open>text\<close> (\<open>None\<close> when the editor gives none); \<open>quote\<close> is
  the character that triggered the docstring.
\<close>

definition generate_docstring ::
  "string \<Rightarrow> string option \<Rightarrow> char \<Rightarrow> IndexError + string option" where
  "generate_docstring doc_type text quote =
     (let quote3 = replicate 3 quote;
          quote3_other = (if quote = dq then replicate 3 sq else replicate 3 dq)
      in if truthy text then
           docstring_of_info doc_type (parse FunctionInfo_init (the text))
             quote3 quote3_other
         else Inr None)"

section \<open>Split points and segments\<close>

text \<open>
  The splitter in the words of its specification, to compare with \<open>split_args_text_to_list\<close>.
  A position is enclosed when it lies strictly inside a pair of one of the four maps. A
  split point is the position of a comma that is not enclosed. The segments of a text are
  the texts between consecutive split points, followed by the text after the last split
  point; that last text is left out when it is empty, as the guard after the loop of the
  source does (claim C6 is about it, and is stated with \<open>split_points\<close> alone).
\<close>

definition enclosed :: "pairs \<Rightarrow> pairs \<Rightarrow> pairs \<Rightarrow> pairs \<Rightarrow> nat \<Rightarrow> bool" where
  "enclosed pos_round pos_curly pos_square pos_quote p =
     (is_char_in_pairs p pos_round \<or> is_char_in_pairs p pos_curly \<or>
      is_char_in_pairs p pos_square \<or> is_char_in_pairs p pos_quote)"

definition split_points :: "string \<Rightarrow> pairs \<Rightarrow> pairs \<Rightarrow> pairs \<Rightarrow> pairs \<Rightarrow> nat list" where
  "split_points text pos_round pos_curly pos_square pos_quote =
     filter (\<lambda>p. text ! p = CHR '','' \<and> \<not> enclosed pos_round pos_curly pos_square pos_quote p)
       [0 ..< length text]"

fun segments :: "string \<Rightarrow> nat \<Rightarrow> nat list \<Rightarrow> string list" where
  "segments text start [] = (if start < length text then [drop start text] else [])"
| "segments text start (p # ps) =
     take (p - start) (drop start text) # segments text (Suc p) ps"

section \<open>The pairs a scan emits\<close>

text \<open>
  For the proofs, the two scans without their accumulator: \<open>quote_emit\<close> and \<open>bracket_emit\<close>
  return the pairs that \<open>quote_loop\<close> and \<open>bracket_loop\<close> add to the dictionary, in the
  order in which they are added (lemmas \<open>quote_loop_emit\<close> and \<open>bracket_loop_emit\<close>).
  \<open>opens\<close> and \<open>closes\<close> name the tests of the loops; \<open>shift_pair\<close> and \<open>shift_state\<close> move
  positions of a segment to positions of the whole text.
\<close>

definition opens :: "char \<Rightarrow> pairs \<Rightarrow> nat \<Rightarrow> char \<Rightarrow> bool" where
  "opens b pq i c = (c = b \<and> \<not> is_char_in_pairs i pq)"

fun bracket_emit ::
  "char \<Rightarrow> char \<Rightarrow> pairs \<Rightarrow> (nat \<times> char) list \<Rightarrow> nat list \<Rightarrow> IndexError + pairs \<times> nat list" where
  "bracket_emit bl br pq [] pstack = Inr ([], pstack)"
| "bracket_emit bl br pq ((i, c) # rest) pstack =
     (if c = bl \<and> \<not> is_char_in_pairs i pq then bracket_emit bl br pq rest (i # pstack)
      else if c = br \<and> \<not> is_char_in_pairs i pq then
        (case pstack of
           [] \<Rightarrow> Inl (NoMatchingClosingParens i)
         | p # pstack' \<Rightarrow>
             (case bracket_emit bl br pq rest pstack' of
                Inl e \<Rightarrow> Inl e
              | Inr (ps, st) \<Rightarrow> Inr ((p, i) # ps, st)))
      else bracket_emit bl br pq rest pstack)"

definition closes :: "string \<Rightarrow> char \<Rightarrow> nat \<Rightarrow> char \<Rightarrow> bool" where
  "closes text q i c = (c = q \<and> text ! (i - 1) \<noteq> backslash)"

fun quote_emit ::
  "string \<Rightarrow> (nat \<times> char) list \<Rightarrow> (char \<times> nat) option \<Rightarrow> pairs \<times> (char \<times> nat) option" where
  "quote_emit text [] st = ([], st)"
| "quote_emit text ((i, c) # rest) None =
     (if c = sq \<or> c = dq then quote_emit text rest (Some (c, i))
      else quote_emit text rest None)"
| "quote_emit text ((i, c) # rest) (Some (q, l)) =
     (if c = q \<and> text ! (i - 1) \<noteq> backslash
      then (case quote_emit text rest None of (ps, st) \<Rightarrow> ((l, i) # ps, st))
      else quote_emit text rest (Some (q, l)))"

definition laminar :: "pairs \<Rightarrow> bool" where
  "laminar ps = (\<forall>(l1, r1) \<in> set ps. \<forall>(l2, r2) \<in> set ps.
      (l1, r1) = (l2, r2) \<or> r1 < l2 \<or> r2 < l1 \<or> (l1 < l2 \<and> r2 < r1) \<or> (l2 < l1 \<and> r1 < r2))"

definition shift_pair :: "nat \<Rightarrow> nat \<times> nat \<Rightarrow> nat \<times> nat" where
  "shift_pair a = (\<lambda>(l, r). (a + l, a + r))"

definition shift_state :: "nat \<Rightarrow> (char \<times> nat) option \<Rightarrow> (char \<times> nat) option" where
  "shift_state a = map_option (\<lambda>(q, l). (q, a + l))"

section \<open>The classifier and the lists of parse\<close>



lemma split_arg_lengths:
  "length (arg_name_list (split_arg_to_name_type_value self args_list)) =
     length (arg_name_list self) + length args_list \<and>
   length (arg_type_list (split_arg_to_name_type_value self args_list)) =
     length (arg_type_list self) + length args_list \<and>
   length (arg_value_list (split_arg_to_name_type_value self args_list)) =
     length (arg_value_list self) + length args_list"
  by (induction args_list arbitrary: self) (auto split: prod.splits)

lemma split_arg_frame:
  "has_info (split_arg_to_name_type_value self args_list) = has_info self \<and>
   func_text (split_arg_to_name_type_value self args_list) = func_text self \<and>
   args_text (split_arg_to_name_type_value self args_list) = args_text self \<and>
   n_indent (split_arg_to_name_type_value self args_list) = n_indent self \<and>
   return_type (split_arg_to_name_type_value self args_list) = return_type self"
  by (induction args_list arbitrary: self) (auto split: prod.splits)

lemma parse_lengths:
  "length (arg_type_list (parse self text)) = length (arg_name_list (parse self text)) \<and>
   length (arg_value_list (parse self text)) = length (arg_name_list (parse self text))"
  by (simp add: parse_def Let_def FunctionInfo_init_def split_arg_lengths
      split: prod.splits option.splits)

lemma parse_has_info:
  "has_info (parse self text) \<longleftrightarrow>
     is_start_of_function text \<and> split_args_text_to_list (args_text (parse self text)) \<noteq> None"
  by (simp add: parse_def Let_def FunctionInfo_init_def split_arg_frame
      split: prod.splits option.splits)

lemma parse_args:
  "(if has_info (parse self text)
    then \<exists>args_list. split_args_text_to_list (args_text (parse self text)) = Some args_list \<and>
           length (arg_name_list (parse self text)) = length args_list
    else arg_name_list (parse self text) = [])"
  by (simp add: parse_def Let_def FunctionInfo_init_def split_arg_frame split_arg_lengths
      split: prod.splits option.splits)





text \<open>
  Claim C10. After every call of \<open>parse\<close>, whatever the object held before and whether
  or not \<open>has_info\<close> is set, the lists \<open>arg_name_list\<close>, \<open>arg_type_list\<close> and
  \<open>arg_value_list\<close> have the same length: one entry of each for every text of the list
  that \<open>split_args_text_to_list\<close> returned, and none when \<open>has_info\<close> is not set.
\<close>

theorem parse_lists_equal_length:
  "length (arg_name_list (parse self text)) = length (arg_type_list (parse self text)) \<and>
   length (arg_type_list (parse self text)) = length (arg_value_list (parse self text)) \<and>
   (if has_info (parse self text)
    then \<exists>args_list. split_args_text_to_list (args_text (parse self text)) = Some args_list \<and>
           length (arg_name_list (parse self text)) = length args_list
    else arg_name_list (parse self text) = [])"
  using parse_lengths [of self "text"] parse_args [of self "text"] by simp

theorem parse_lists_equal_length_witness:
  "length (arg_name_list (parse FunctionInfo_init ''def f(a, b: int = 3):'')) = 2 \<and>
   length (arg_type_list (parse FunctionInfo_init ''def f(a, b: int = 3):'')) = 2 \<and>
   length (arg_value_list (parse FunctionInfo_init ''def f(a, b: int = 3):'')) = 2"
proof -
  have "length (arg_name_list (parse FunctionInfo_init ''def f(a, b: int = 3):'')) = 2"
    by code_simp
  then show ?thesis
    using parse_lists_equal_length [of FunctionInfo_init "''def f(a, b: int = 3):''"]
    by simp
qed

section \<open>The renderer\<close>

lemma parse_ignores_self: "parse self text = parse FunctionInfo_init text"
  by (simp add: parse_def)

lemma generate_numpy_doc_eq:
  assumes "length (arg_type_list fi) = length (arg_name_list fi)"
      and "length (arg_value_list fi) = length (arg_name_list fi)"
  shows "generate_numpy_doc fi quote3 quote3_other =
     (let fi' = (if arg_name_list fi \<noteq> [] \<and> hd (arg_name_list fi) = ''self''
                 then fi\<lparr>arg_name_list := tl (arg_name_list fi),
                         arg_type_list := tl (arg_type_list fi),
                         arg_value_list := tl (arg_value_list fi)\<rparr>
                 else fi)
      in Inr (numpy_doc_text (arg_name_list fi') (arg_type_list fi') (arg_value_list fi')
                (n_indent fi') (return_type fi') quote3 quote3_other, fi'))"
proof (cases "arg_name_list fi \<noteq> [] \<and> hd (arg_name_list fi) = ''self''")
  case False
  then show ?thesis by (auto simp: generate_numpy_doc_def)
next
  case True
  with assms have "arg_type_list fi \<noteq> []" and "arg_value_list fi \<noteq> []"
    by auto
  with True show ?thesis
    by (auto simp: generate_numpy_doc_def del_first_def Let_def split: list.splits)
qed

lemma numpy_doc_text_empty:
  assumes "\<not> truthy rtype"
  shows "numpy_doc_text [] arg_types arg_values indent rtype quote3 quote3_other =
     [newline, newline] @ spaces (4 + indent) @ ''Returns'' @
     [newline] @ spaces (4 + indent) @ ''-------'' @
     [newline] @ spaces (4 + indent) @ ''None'' @
     [newline, newline] @ spaces (4 + indent) @ quote3"
  using assms by (auto simp: numpy_doc_text_def truthy_def Let_def split: option.splits)

text \<open>
  Claim C9, as amended. For an object whose lists have equal lengths, whose argument
  names are none or only \<open>self\<close>, and whose return type is absent (\<open>None\<close> or empty),
  the numpy docstring is exactly: an empty line, the line \<open>Returns\<close>, its underline, the
  line \<open>None\<close>, an empty line, and the closing line with the three quote characters
  of the trigger, each line indented by four more than \<open>n_indent\<close>. There is no
  \<open>Parameters\<close> section, and no \<open>[description]\<close> line follows \<open>None\<close>.
\<close>

theorem numpy_doc_no_arguments_no_return:
  assumes "length (arg_type_list fi) = length (arg_name_list fi)"
      and "length (arg_value_list fi) = length (arg_name_list fi)"
      and "arg_name_list fi = [] \<or> arg_name_list fi = [''self'']"
      and "\<not> truthy (return_type fi)"
  shows "\<exists>fi'. generate_numpy_doc fi (replicate 3 quote) quote3_other =
     Inr ([newline, newline] @ spaces (4 + n_indent fi) @ ''Returns'' @
          [newline] @ spaces (4 + n_indent fi) @ ''-------'' @
          [newline] @ spaces (4 + n_indent fi) @ ''None'' @
          [newline, newline] @ spaces (4 + n_indent fi) @ replicate 3 quote, fi')"
  using assms(3,4) numpy_doc_text_empty [of "return_type fi"]
  unfolding generate_numpy_doc_eq [OF assms(1,2)] Let_def
  by (auto simp del: replicate.simps append.simps)

theorem numpy_doc_no_arguments_no_return_witness:
  "\<exists>fi'. generate_numpy_doc (parse FunctionInfo_init ''def foo():'') (replicate 3 dq)
            (replicate 3 sq) =
     Inr ([newline, newline] @ ''    Returns'' @
          [newline] @ ''    -------'' @
          [newline] @ ''    None'' @
          [newline, newline] @ ''    '' @ [dq, dq, dq], fi')"
proof -
  let ?fi = "parse FunctionInfo_init ''def foo():''"
  have n: "arg_name_list ?fi = []" by code_simp
  have t: "arg_type_list ?fi = []" by code_simp
  have v: "arg_value_list ?fi = []" by code_simp
  have r: "\<not> truthy (return_type ?fi)" by code_simp
  have i: "n_indent ?fi = 0" by code_simp
  have s: "spaces 4 = ''    ''" by code_simp
  have q: "replicate 3 dq = [dq, dq, dq]" by (simp add: numeral_3_eq_3)
  show ?thesis
    using numpy_doc_no_arguments_no_return [of ?fi dq "replicate 3 sq"] n t v r
    unfolding i q by (simp add: s)
qed

text \<open>
  Claim C9 as stated asks for a description placeholder after \<open>None\<close>. The docstring of
  \<open>def foo():\<close> has none: the text \<open>[description]\<close> does not occur in it.
\<close>

theorem numpy_doc_none_has_placeholder_counterexample:
  "generate_docstring ''numpy'' (Some ''def foo():'') dq =
     Inr (Some ([newline, newline] @ ''    Returns'' @
          [newline] @ ''    -------'' @
          [newline] @ ''    None'' @
          [newline, newline] @ ''    '' @ [dq, dq, dq])) \<and>
   str_find ([newline, newline] @ ''    Returns'' @
          [newline] @ ''    -------'' @
          [newline] @ ''    None'' @
          [newline, newline] @ ''    '' @ [dq, dq, dq]) ''[description]'' 0 = - 1"
  by code_simp

section \<open>Headers that are not parsed, and the receiver\<close>

lemma docstring_of_info_invalid:
  "\<not> has_info fi \<Longrightarrow> docstring_of_info doc_type fi quote3 quote3_other = Inr None"
  by (simp add: docstring_of_info_def)

lemma split_args_text_to_list_None:
  "split_args_text_to_list t = None \<longleftrightarrow>
     (case find_quote_position t of
        Inl e \<Rightarrow> True
      | Inr pos_quote \<Rightarrow>
          isl (find_bracket_position t (CHR ''('') (CHR '')'') pos_quote) \<or>
          isl (find_bracket_position t (CHR ''{'') (CHR ''}'') pos_quote) \<or>
          isl (find_bracket_position t (CHR ''['') (CHR '']'') pos_quote))"
  by (auto simp: split_args_text_to_list_def split: sum.splits prod.splits)

text \<open>
  Claim C2. A header whose parameter span cannot be located should leave \<open>has_info\<close>
  unset, as a header with an unbalanced bracket inside the span does: for
  \<open>def f(a, b=(1:\<close> the bracket scan fails, \<open>has_info\<close> stays unset and no docstring is
  produced. The code does not test the results of \<open>find\<close> and \<open>rfind\<close>. For
  \<open>def f(a, b:\<close> the search for the closing parenthesis gives \<open>-1\<close>, which is used as
  the end of the slice: \<open>text[6:-1]\<close> is \<open>a, b\<close>, \<open>has_info\<close> is set and a docstring with
  the parameters \<open>a\<close> and \<open>b\<close> is produced. In the same way \<open>def f(a, b\<close> loses its last
  character and gives a parameter that is one space, and \<open>def f:\<close>, which has no
  parenthesis at all, gives a parameter named \<open>def f\<close>.
\<close>

theorem missing_close_paren_parsed_as_valid:
  "has_info (parse FunctionInfo_init ''def f(a, b:'') \<and>
   args_text (parse FunctionInfo_init ''def f(a, b:'') = ''a, b'' \<and>
   arg_name_list (parse FunctionInfo_init ''def f(a, b:'') = [''a'', '' b''] \<and>
   generate_docstring ''numpy'' (Some ''def f(a, b:'') dq \<noteq> Inr None \<and>
   has_info (parse FunctionInfo_init ''def f(a, b'') \<and>
   args_text (parse FunctionInfo_init ''def f(a, b'') = ''a, '' \<and>
   arg_name_list (parse FunctionInfo_init ''def f(a, b'') = [''a'', '' ''] \<and>
   has_info (parse FunctionInfo_init ''def f:'') \<and>
   args_text (parse FunctionInfo_init ''def f:'') = ''def f'' \<and>
   arg_name_list (parse FunctionInfo_init ''def f:'') = [''def f''] \<and>
   args_text (parse FunctionInfo_init ''def f(a, b=(1:'') = ''a, b=(1'' \<and>
   find_bracket_position ''a, b=(1'' (CHR ''('') (CHR '')'') [] =
     Inl (NoMatchingOpeningParens 5) \<and>
   has_info (parse FunctionInfo_init ''def f(a, b=(1:'') = False \<and>
   generate_docstring ''numpy'' (Some ''def f(a, b=(1:'') dq = Inr None"
  by code_simp

text \<open>
  Claim C1, as amended. For the header \<open>def foo(self, x):\<close>, \<open>parse\<close> returns an object
  with \<open>has_info\<close> set and two argument names, the first of them \<open>self\<close>: \<open>parse\<close> does not
  drop the receiver. \<open>_generate_numpy_doc\<close> deletes the \<open>self\<close> entry, and the list it
  renders (and leaves in the object) has exactly one name, the one of \<open>x\<close>.
\<close>

theorem parse_keeps_receiver_render_drops_it:
  "has_info (parse self ''def foo(self, x):'') \<and>
   length (arg_name_list (parse self ''def foo(self, x):'')) = 2 \<and>
   hd (arg_name_list (parse self ''def foo(self, x):'')) = ''self'' \<and>
   map strip (arg_name_list (parse self ''def foo(self, x):'')) = [''self'', ''x''] \<and>
   (\<exists>doc fi'. generate_numpy_doc (parse self ''def foo(self, x):'') quote3 quote3_other =
        Inr (doc, fi') \<and>
      length (arg_name_list fi') = 1 \<and>
      map strip (arg_name_list fi') = [''x''])"
proof -
  let ?fi = "parse FunctionInfo_init ''def foo(self, x):''"
  have a: "has_info ?fi" by code_simp
  have b: "length (arg_name_list ?fi) = 2" by code_simp
  have c: "hd (arg_name_list ?fi) = ''self''" by code_simp
  have d: "map strip (arg_name_list ?fi) = [''self'', ''x'']" by code_simp
  have e: "length (tl (arg_name_list ?fi)) = 1" by code_simp
  have f: "map strip (tl (arg_name_list ?fi)) = [''x'']" by code_simp
  have g: "arg_name_list ?fi \<noteq> []" using b by auto
  have "\<exists>doc fi'. generate_numpy_doc ?fi quote3 quote3_other = Inr (doc, fi') \<and>
      length (arg_name_list fi') = 1 \<and> map strip (arg_name_list fi') = [''x'']"
    using parse_lengths [of FunctionInfo_init "''def foo(self, x):''"] c e f g
    by (simp add: generate_numpy_doc_eq Let_def)
  with a b c d show ?thesis
    unfolding parse_ignores_self [of self] by simp
qed

text \<open>
  Claim C1 as stated fails: the name list that \<open>parse\<close> returns for \<open>def foo(self, x):\<close>
  is not \<open>[x]\<close>.
\<close>

theorem parse_drops_receiver_counterexample:
  "arg_name_list (parse FunctionInfo_init ''def foo(self, x):'') = [''self'', '' x''] \<and>
   arg_name_list (parse FunctionInfo_init ''def foo(self, x):'') \<noteq> [''x'']"
  by code_simp

theorem parse_keeps_receiver_render_drops_it_witness:
  "has_info (parse FunctionInfo_init ''def foo(self, x):'') \<and>
   hd (arg_name_list (parse FunctionInfo_init ''def foo(self, x):'')) = ''self'' \<and>
   (\<exists>doc fi'. generate_numpy_doc (parse FunctionInfo_init ''def foo(self, x):'')
        (replicate 3 dq) (replicate 3 sq) = Inr (doc, fi') \<and>
      length (arg_name_list fi') = 1)"
  using parse_keeps_receiver_render_drops_it [of FunctionInfo_init "replicate 3 dq" "replicate 3 sq"]
  by blast

section \<open>What rendering changes\<close>

text \<open>
  Claim C3, as amended. Rendering a parsed object always succeeds and leaves \<open>has_info\<close>,
  \<open>func_text\<close>, \<open>args_text\<close>, \<open>n_indent\<close> and \<open>return_type\<close> unchanged. When the first
  argument name is exactly \<open>self\<close> it removes the first entry of each of the three lists
  of the object; otherwise the object is unchanged. Rendering the object that the first
  rendering left gives the same text again and changes nothing, unless that object
  still starts with a name \<open>self\<close>.
\<close>

theorem render_removes_only_the_receiver_entry:
  "\<exists>doc fi'.
     generate_numpy_doc (parse self text) quote3 quote3_other = Inr (doc, fi') \<and>
     has_info fi' = has_info (parse self text) \<and>
     func_text fi' = func_text (parse self text) \<and>
     args_text fi' = args_text (parse self text) \<and>
     n_indent fi' = n_indent (parse self text) \<and>
     return_type fi' = return_type (parse self text) \<and>
     (if arg_name_list (parse self text) \<noteq> [] \<and> hd (arg_name_list (parse self text)) = ''self''
      then arg_name_list fi' = tl (arg_name_list (parse self text)) \<and>
           arg_type_list fi' = tl (arg_type_list (parse self text)) \<and>
           arg_value_list fi' = tl (arg_value_list (parse self text))
      else fi' = parse self text) \<and>
     (\<not> (arg_name_list fi' \<noteq> [] \<and> hd (arg_name_list fi') = ''self'') \<longrightarrow>
        generate_numpy_doc fi' quote3 quote3_other = Inr (doc, fi'))"
proof -
  let ?fi = "parse self text"
  let ?fi' = "(if arg_name_list ?fi \<noteq> [] \<and> hd (arg_name_list ?fi) = ''self''
                 then ?fi\<lparr>arg_name_list := tl (arg_name_list ?fi),
                         arg_type_list := tl (arg_type_list ?fi),
                         arg_value_list := tl (arg_value_list ?fi)\<rparr>
                 else ?fi)"
  let ?doc = "numpy_doc_text (arg_name_list ?fi') (arg_type_list ?fi') (arg_value_list ?fi')
                (n_indent ?fi') (return_type ?fi') quote3 quote3_other"
  have len: "length (arg_type_list ?fi) = length (arg_name_list ?fi)"
    "length (arg_value_list ?fi) = length (arg_name_list ?fi)"
    using parse_lengths [of self "text"] by simp_all
  have first: "generate_numpy_doc ?fi quote3 quote3_other = Inr (?doc, ?fi')"
    using generate_numpy_doc_eq [OF len, of quote3 quote3_other] by (simp add: Let_def)
  have len': "length (arg_type_list ?fi') = length (arg_name_list ?fi')"
    "length (arg_value_list ?fi') = length (arg_name_list ?fi')"
    using len by auto
  have second: "\<not> (arg_name_list ?fi' \<noteq> [] \<and> hd (arg_name_list ?fi') = ''self'') \<longrightarrow>
      generate_numpy_doc ?fi' quote3 quote3_other = Inr (?doc, ?fi')"
    using generate_numpy_doc_eq [OF len', of quote3 quote3_other] by (simp add: Let_def)
  have frame: "has_info ?fi' = has_info ?fi \<and> func_text ?fi' = func_text ?fi \<and>
     args_text ?fi' = args_text ?fi \<and> n_indent ?fi' = n_indent ?fi \<and>
     return_type ?fi' = return_type ?fi"
    by simp
  have lists: "(if arg_name_list ?fi \<noteq> [] \<and> hd (arg_name_list ?fi) = ''self''
      then arg_name_list ?fi' = tl (arg_name_list ?fi) \<and>
           arg_type_list ?fi' = tl (arg_type_list ?fi) \<and>
           arg_value_list ?fi' = tl (arg_value_list ?fi)
      else ?fi' = ?fi)"
    by simp
  show ?thesis
    apply (rule exI [of _ ?doc])
    apply (rule exI [of _ ?fi'])
    using first second frame lists apply blast
    done
qed

theorem render_removes_only_the_receiver_entry_witness:
  "\<exists>doc fi'.
     generate_numpy_doc (parse FunctionInfo_init ''def foo(self, x):'') (replicate 3 dq)
       (replicate 3 sq) = Inr (doc, fi') \<and>
     arg_name_list fi' = ['' x''] \<and>
     generate_numpy_doc fi' (replicate 3 dq) (replicate 3 sq) = Inr (doc, fi')"
proof -
  let ?fi = "parse FunctionInfo_init ''def foo(self, x):''"
  have a: "arg_name_list ?fi = [''self'', '' x'']" by code_simp
  have b: "'' x'' \<noteq> ''self''" by simp
  show ?thesis
    using render_removes_only_the_receiver_entry
      [of FunctionInfo_init "''def foo(self, x):''" "replicate 3 dq" "replicate 3 sq"]
    unfolding a using b by (auto simp del: replicate.simps)
qed

text \<open>
  Claim C3 as stated fails. Rendering the object parsed from \<open>def foo(self, x):\<close> changes
  its three lists; and for \<open>def f(self,self):\<close> the second rendering gives another text
  than the first.
\<close>

theorem render_is_pure_counterexample:
  "(case generate_numpy_doc (parse FunctionInfo_init ''def foo(self, x):'')
           (replicate 3 dq) (replicate 3 sq) of
      Inl e \<Rightarrow> False
    | Inr (doc, fi') \<Rightarrow>
        arg_name_list (parse FunctionInfo_init ''def foo(self, x):'') = [''self'', '' x''] \<and>
        arg_name_list fi' = ['' x''] \<and>
        arg_type_list fi' \<noteq> arg_type_list (parse FunctionInfo_init ''def foo(self, x):'') \<and>
        arg_value_list fi' \<noteq> arg_value_list (parse FunctionInfo_init ''def foo(self, x):'')) \<and>
   (case generate_numpy_doc (parse FunctionInfo_init ''def f(self,self):'')
           (replicate 3 dq) (replicate 3 sq) of
      Inl e \<Rightarrow> False
    | Inr (doc, fi') \<Rightarrow>
        (case generate_numpy_doc fi' (replicate 3 dq) (replicate 3 sq) of
           Inl e \<Rightarrow> False
         | Inr (doc', fi'') \<Rightarrow> doc' \<noteq> doc))"
  by code_simp

section \<open>The bracket scan\<close>

lemma is_char_in_pairs_iff:
  "is_char_in_pairs p ps \<longleftrightarrow> (\<exists>(l, r) \<in> set ps. l < p \<and> p < r)"
  by (induction ps) auto

lemma update_fresh: "k \<notin> fst ` set al \<Longrightarrow> AList.update k v al = al @ [(k, v)]"
  by (induction al) auto

lemma bracket_loop_Cons:
  "bracket_loop bl br pq ((i, c) # rest) pos pstack =
     (if opens bl pq i c then bracket_loop bl br pq rest pos (i # pstack)
      else if opens br pq i c then
        (case pstack of
           [] \<Rightarrow> Inl (NoMatchingClosingParens i)
         | p # pstack' \<Rightarrow> bracket_loop bl br pq rest (AList.update p i pos) pstack')
      else bracket_loop bl br pq rest pos pstack)"
  by (simp add: opens_def)

lemma bracket_emit_Cons:
  "bracket_emit bl br pq ((i, c) # rest) pstack =
     (if opens bl pq i c then bracket_emit bl br pq rest (i # pstack)
      else if opens br pq i c then
        (case pstack of
           [] \<Rightarrow> Inl (NoMatchingClosingParens i)
         | p # pstack' \<Rightarrow>
             (case bracket_emit bl br pq rest pstack' of
                Inl e \<Rightarrow> Inl e
              | Inr (ps, st) \<Rightarrow> Inr ((p, i) # ps, st)))
      else bracket_emit bl br pq rest pstack)"
  by (simp add: opens_def)

lemmas bracket_Cons = bracket_loop_Cons bracket_emit_Cons enumerate_simps

lemma bracket_loop_emit:
  assumes "distinct pstack" and "set pstack \<inter> fst ` set pos = {}"
      and "\<forall>x \<in> set pstack \<union> fst ` set pos. x < k"
  shows "bracket_loop bl br pq (enumerate k ys) pos pstack =
     (case bracket_emit bl br pq (enumerate k ys) pstack of
        Inl e \<Rightarrow> Inl e
      | Inr (ps, st) \<Rightarrow> Inr (pos @ ps, st))"
  using assms
proof (induction ys arbitrary: k pos pstack)
  case Nil
  then show ?case by simp
next
  case (Cons c cs)
  show ?case
  proof (cases "opens bl pq k c")
    case True
    have "bracket_loop bl br pq (enumerate (Suc k) cs) pos (k # pstack) =
       (case bracket_emit bl br pq (enumerate (Suc k) cs) (k # pstack) of
          Inl e \<Rightarrow> Inl e | Inr (ps, st) \<Rightarrow> Inr (pos @ ps, st))"
      using Cons.prems by (intro Cons.IH) (auto simp: less_Suc_eq)
    with True show ?thesis by (simp only: bracket_Cons if_True)
  next
    case notl: False
    show ?thesis
    proof (cases "opens br pq k c")
      case False
      have "bracket_loop bl br pq (enumerate (Suc k) cs) pos pstack =
         (case bracket_emit bl br pq (enumerate (Suc k) cs) pstack of
            Inl e \<Rightarrow> Inl e | Inr (ps, st) \<Rightarrow> Inr (pos @ ps, st))"
        using Cons.prems by (intro Cons.IH) (auto simp: less_Suc_eq)
      with notl False show ?thesis by (simp only: bracket_Cons if_False)
    next
      case True
      show ?thesis
      proof (cases pstack)
        case Nil
        with notl True show ?thesis by (simp only: bracket_Cons if_False if_True list.case sum.case)
      next
        case (Cons p pstack')
        have fresh: "p \<notin> fst ` set pos"
          using Cons.prems(2) Cons by auto
        have upd: "AList.update p k pos = pos @ [(p, k)]"
          using fresh by (rule update_fresh)
        have "bracket_loop bl br pq (enumerate (Suc k) cs) (pos @ [(p, k)]) pstack' =
           (case bracket_emit bl br pq (enumerate (Suc k) cs) pstack' of
              Inl e \<Rightarrow> Inl e | Inr (ps, st) \<Rightarrow> Inr ((pos @ [(p, k)]) @ ps, st))"
          using Cons.prems Cons by (intro Cons.IH) (auto simp: less_Suc_eq)
        with notl True Cons upd show ?thesis
          by (simp only: bracket_Cons if_False if_True list.case)
            (simp split: sum.splits prod.splits)
      qed
    qed
  qed
qed

lemma find_bracket_position_emit:
  "find_bracket_position text bl br pq =
     (case bracket_emit bl br pq (enumerate 0 text) [] of
        Inl e \<Rightarrow> Inl e
      | Inr (ps, []) \<Rightarrow> Inr ps
      | Inr (ps, p # st) \<Rightarrow> Inl (NoMatchingOpeningParens p))"
  unfolding find_bracket_position_def
  by (subst bracket_loop_emit) (auto split: sum.splits prod.splits list.splits)

lemma bracket_emit_inv:
  assumes "bracket_emit bl br pq (enumerate k ys) pstack = Inr (ps, st)"
      and "sorted_wrt (>) pstack" and "\<forall>s \<in> set pstack. s < k"
  shows "(\<forall>(l, r) \<in> set ps. l < r \<and> k \<le> r \<and> r < k + length ys \<and> (k \<le> l \<or> l \<in> set pstack)) \<and>
         distinct (map fst ps) \<and> distinct (map snd ps) \<and> laminar ps"
  using assms
proof (induction ys arbitrary: k pstack ps st)
  case Nil
  then show ?case by (simp add: laminar_def)
next
  case (Cons c cs)
  show ?case
  proof (cases "opens bl pq k c")
    case True
    with Cons.prems(1) have e: "bracket_emit bl br pq (enumerate (Suc k) cs) (k # pstack) = Inr (ps, st)"
      by (simp only: bracket_Cons if_True)
    have "(\<forall>(l, r) \<in> set ps. l < r \<and> Suc k \<le> r \<and> r < Suc k + length cs \<and>
              (Suc k \<le> l \<or> l \<in> set (k # pstack))) \<and>
         distinct (map fst ps) \<and> distinct (map snd ps) \<and> laminar ps"
      using Cons.prems(2,3) by (intro Cons.IH [OF e]) (auto simp: less_Suc_eq)
    then show ?thesis by fastforce
  next
    case notl: False
    show ?thesis
    proof (cases "opens br pq k c")
      case False
      with notl Cons.prems(1) have e: "bracket_emit bl br pq (enumerate (Suc k) cs) pstack = Inr (ps, st)"
        by (simp only: bracket_Cons if_False)
      have "(\<forall>(l, r) \<in> set ps. l < r \<and> Suc k \<le> r \<and> r < Suc k + length cs \<and>
                (Suc k \<le> l \<or> l \<in> set pstack)) \<and>
           distinct (map fst ps) \<and> distinct (map snd ps) \<and> laminar ps"
        using Cons.prems(2,3) by (intro Cons.IH [OF e]) (auto simp: less_Suc_eq)
      then show ?thesis by fastforce
    next
      case True
      from notl True Cons.prems(1) have
        "(case pstack of
           [] \<Rightarrow> Inl (NoMatchingClosingParens k)
         | p # pstack' \<Rightarrow>
             (case bracket_emit bl br pq (enumerate (Suc k) cs) pstack' of
                Inl e \<Rightarrow> Inl e
              | Inr (ps, st) \<Rightarrow> Inr ((p, k) # ps, st))) = Inr (ps, st)"
        by (simp only: bracket_Cons if_False if_True)
      then obtain p pstack' ps' where
        st: "pstack = p # pstack'" and ps: "ps = (p, k) # ps'" and
        e: "bracket_emit bl br pq (enumerate (Suc k) cs) pstack' = Inr (ps', st)"
        by (auto split: list.splits sum.splits)
      have ih: "(\<forall>(l, r) \<in> set ps'. l < r \<and> Suc k \<le> r \<and> r < Suc k + length cs \<and>
                (Suc k \<le> l \<or> l \<in> set pstack')) \<and>
           distinct (map fst ps') \<and> distinct (map snd ps') \<and> laminar ps'"
        using Cons.prems(2,3) st by (intro Cons.IH [OF e]) (auto simp: less_Suc_eq)
      have pk: "p < k" and below: "\<forall>s \<in> set pstack'. s < p"
        using Cons.prems(2,3) st by auto
      have rel: "\<forall>(l, r) \<in> set ps'. k < r \<and> (k < l \<or> l < p)"
        using ih below by fastforce
      have "\<forall>(l, r) \<in> set ps. l < r \<and> k \<le> r \<and> r < k + length (c # cs) \<and> (k \<le> l \<or> l \<in> set pstack)"
        using ih pk unfolding ps st by fastforce
      moreover have "distinct (map fst ps)"
        using ih rel pk unfolding ps by fastforce
      moreover have "distinct (map snd ps)"
        using ih rel unfolding ps by fastforce
      moreover have "laminar ps"
        using ih rel pk unfolding ps laminar_def
        by (simp add: Ball_def) (metis less_imp_le_nat not_less)
      ultimately show ?thesis by blast
    qed
  qed
qed


section \<open>The quote scan\<close>

lemma quote_loop_Some:
  "quote_loop text ((i, c) # rest) (Some (q, l)) pos =
     (if closes text q i c then quote_loop text rest None (AList.update l i pos)
      else quote_loop text rest (Some (q, l)) pos)"
  by (simp add: closes_def)

lemma quote_emit_Some:
  "quote_emit text ((i, c) # rest) (Some (q, l)) =
     (if closes text q i c
      then (case quote_emit text rest None of (ps, st) \<Rightarrow> ((l, i) # ps, st))
      else quote_emit text rest (Some (q, l)))"
  by (simp add: closes_def)

lemmas quote_Some = quote_loop_Some quote_emit_Some enumerate_simps

lemma quote_loop_emit:
  assumes "\<forall>x \<in> fst ` set pos. x < (case st of None \<Rightarrow> k | Some (q, l) \<Rightarrow> l)"
      and "\<forall>q l. st = Some (q, l) \<longrightarrow> l < k"
  shows "quote_loop text (enumerate k ys) st pos =
     (case quote_emit text (enumerate k ys) st of (ps, st') \<Rightarrow> (pos @ ps, st'))"
  using assms
proof (induction ys arbitrary: k st pos)
  case Nil
  then show ?case by simp
next
  case (Cons c cs)
  show ?case
  proof (cases st)
    case None
    show ?thesis
    proof (cases "c = sq \<or> c = dq")
      case True
      have "quote_loop text (enumerate (Suc k) cs) (Some (c, k)) pos =
        (case quote_emit text (enumerate (Suc k) cs) (Some (c, k)) of
           (ps, st') \<Rightarrow> (pos @ ps, st'))"
        using Cons.prems None by (intro Cons.IH) auto
      with None True show ?thesis by simp
    next
      case False
      have "quote_loop text (enumerate (Suc k) cs) None pos =
        (case quote_emit text (enumerate (Suc k) cs) None of
           (ps, st') \<Rightarrow> (pos @ ps, st'))"
        using Cons.prems None by (intro Cons.IH) (auto simp: less_Suc_eq)
      with None False show ?thesis by simp
    qed
  next
    case (Some ql)
    obtain q l where ql: "ql = (q, l)" by (cases ql)
    show ?thesis
    proof (cases "closes text q k c")
      case True
      have fresh: "l \<notin> fst ` set pos"
        using Cons.prems(1) Some ql by auto
      have upd: "AList.update l k pos = pos @ [(l, k)]"
        using fresh by (rule update_fresh)
      have "quote_loop text (enumerate (Suc k) cs) None (pos @ [(l, k)]) =
        (case quote_emit text (enumerate (Suc k) cs) None of
           (ps, st') \<Rightarrow> ((pos @ [(l, k)]) @ ps, st'))"
        using Cons.prems Some ql by (intro Cons.IH) (auto simp: less_Suc_eq)
      with Some ql True upd show ?thesis
        by (simp only: quote_Some if_True) (simp split: prod.splits)
    next
      case False
      have "quote_loop text (enumerate (Suc k) cs) (Some (q, l)) pos =
        (case quote_emit text (enumerate (Suc k) cs) (Some (q, l)) of
           (ps, st') \<Rightarrow> (pos @ ps, st'))"
        using Cons.prems Some ql by (intro Cons.IH) (auto simp: less_Suc_eq)
      with Some ql False show ?thesis by (simp only: quote_Some if_False)
    qed
  qed
qed

lemma find_quote_position_emit:
  "find_quote_position text =
     (case quote_emit text (enumerate 0 text) None of
        (ps, None) \<Rightarrow> Inr ps
      | (ps, Some (q, l)) \<Rightarrow> Inl (NoMatchingCloseQuote l))"
  unfolding find_quote_position_def
  by (subst quote_loop_emit) (auto split: prod.splits option.splits)

lemma quote_emit_append:
  "quote_emit text (xs @ ys) st =
     (case quote_emit text xs st of
        (p1, s1) \<Rightarrow> (case quote_emit text ys s1 of (p2, s2) \<Rightarrow> (p1 @ p2, s2)))"
proof (induction xs arbitrary: st)
  case Nil
  then show ?case by (simp split: prod.splits)
next
  case (Cons x xs)
  obtain i c where x: "x = (i, c)" by (cases x)
  show ?case
  proof (cases st)
    case None
    then show ?thesis using Cons.IH x by (simp split: prod.splits)
  next
    case (Some ql)
    obtain q l where ql: "ql = (q, l)" by (cases ql)
    show ?thesis using Cons.IH x Some ql by (simp split: prod.splits)
  qed
qed

lemma quote_emit_range:
  assumes "quote_emit text (enumerate k ys) st = (ps, st')"
      and "\<forall>q l. st = Some (q, l) \<longrightarrow> l < k \<and> (q = sq \<or> q = dq)"
  shows "(\<forall>(l, r) \<in> set ps. l < r \<and> k \<le> r \<and> r < k + length ys \<and>
            (k \<le> l \<or> (\<exists>q. st = Some (q, l)))) \<and>
         (\<forall>q l. st' = Some (q, l) \<longrightarrow>
            (q = sq \<or> q = dq) \<and> l < k + length ys \<and> (k \<le> l \<or> st = Some (q, l)))"
  using assms
proof (induction ys arbitrary: k st ps)
  case Nil
  then show ?case by auto
next
  case (Cons c cs)
  show ?case
  proof (cases st)
    case None
    show ?thesis
    proof (cases "c = sq \<or> c = dq")
      case True
      with None Cons.prems(1)
      have e: "quote_emit text (enumerate (Suc k) cs) (Some (c, k)) = (ps, st')" by simp
      have pre: "\<forall>q l. Some (c, k) = Some (q, l) \<longrightarrow> l < Suc k \<and> (q = sq \<or> q = dq)"
        using True by auto
      show ?thesis using Cons.IH [OF e pre] None by fastforce
    next
      case False
      with None Cons.prems(1)
      have e: "quote_emit text (enumerate (Suc k) cs) None = (ps, st')" by simp
      have pre: "\<forall>q l. (None :: (char \<times> nat) option) = Some (q, l) \<longrightarrow>
          l < Suc k \<and> (q = sq \<or> q = dq)"
        by simp
      show ?thesis using Cons.IH [OF e pre] None by fastforce
    qed
  next
    case (Some ql)
    obtain q l where ql: "ql = (q, l)" by (cases ql)
    have lk: "l < k" and qq: "q = sq \<or> q = dq" using Cons.prems(2) Some ql by auto
    show ?thesis
    proof (cases "closes text q k c")
      case True
      with Some ql Cons.prems(1) have
        "(case quote_emit text (enumerate (Suc k) cs) None of
            (ps, st) \<Rightarrow> ((l, k) # ps, st)) = (ps, st')"
        by (simp only: quote_Some if_True)
      then obtain ps' where
        ps: "ps = (l, k) # ps'" and
        e: "quote_emit text (enumerate (Suc k) cs) None = (ps', st')"
        by (auto split: prod.splits)
      have pre: "\<forall>q l. (None :: (char \<times> nat) option) = Some (q, l) \<longrightarrow>
          l < Suc k \<and> (q = sq \<or> q = dq)"
        by simp
      show ?thesis using Cons.IH [OF e pre] lk unfolding ps Some ql by fastforce
    next
      case False
      with Some ql Cons.prems(1)
      have e: "quote_emit text (enumerate (Suc k) cs) (Some (q, l)) = (ps, st')"
        by (simp only: quote_Some if_False)
      have pre: "\<forall>q' l'. Some (q, l) = Some (q', l') \<longrightarrow> l' < Suc k \<and> (q' = sq \<or> q' = dq)"
        using lk qq by auto
      show ?thesis using Cons.IH [OF e pre] unfolding Some ql by fastforce
    qed
  qed
qed

lemma quote_emit_close:
  assumes "quote_emit text (enumerate k ys) (Some (q, l)) = (ps, None)"
  shows "\<exists>r. k \<le> r \<and> (l, r) \<in> set ps"
  using assms
proof (induction ys arbitrary: k ps)
  case Nil
  then show ?case by simp
next
  case (Cons c cs)
  show ?case
  proof (cases "closes text q k c")
    case True
    with Cons.prems have
      "(case quote_emit text (enumerate (Suc k) cs) None of
          (ps, st) \<Rightarrow> ((l, k) # ps, st)) = (ps, None)"
      by (simp only: quote_Some if_True)
    then show ?thesis by (auto split: prod.splits)
  next
    case False
    with Cons.prems have "quote_emit text (enumerate (Suc k) cs) (Some (q, l)) = (ps, None)"
      by (simp only: quote_Some if_False)
    from Cons.IH [OF this] show ?thesis by (auto intro: Suc_leD)
  qed
qed


lemma quote_emit_shift:
  assumes "quote_emit seg (enumerate j ys) st = (ps, st')"
      and "\<forall>i. j \<le> i \<and> i < j + length ys \<and> 0 < i \<longrightarrow> text ! (a + i - 1) = seg ! (i - 1)"
      and "\<forall>q l. st = Some (q, l) \<longrightarrow> l < j"
  shows "quote_emit text (enumerate (a + j) ys) (shift_state a st) =
           (map (shift_pair a) ps, shift_state a st')"
  using assms
proof (induction ys arbitrary: j st ps)
  case Nil
  then show ?case by simp
next
  case (Cons c cs)
  have agree: "\<forall>i. Suc j \<le> i \<and> i < Suc j + length cs \<and> 0 < i \<longrightarrow>
      text ! (a + i - 1) = seg ! (i - 1)"
    using Cons.prems(2) by auto
  show ?case
  proof (cases st)
    case None
    show ?thesis
    proof (cases "c = sq \<or> c = dq")
      case True
      with None Cons.prems(1)
      have e: "quote_emit seg (enumerate (Suc j) cs) (Some (c, j)) = (ps, st')" by simp
      have "quote_emit text (enumerate (a + Suc j) cs) (shift_state a (Some (c, j))) =
           (map (shift_pair a) ps, shift_state a st')"
        by (rule Cons.IH [OF e agree]) simp
      with None True show ?thesis by (simp add: shift_state_def)
    next
      case False
      with None Cons.prems(1)
      have e: "quote_emit seg (enumerate (Suc j) cs) None = (ps, st')" by simp
      have "quote_emit text (enumerate (a + Suc j) cs) (shift_state a None) =
           (map (shift_pair a) ps, shift_state a st')"
        by (rule Cons.IH [OF e agree]) simp
      with None False show ?thesis by (simp add: shift_state_def)
    qed
  next
    case (Some ql)
    obtain q l where ql: "ql = (q, l)" by (cases ql)
    have lj: "l < j" using Cons.prems(3) Some ql by auto
    then have "text ! (a + j - 1) = seg ! (j - 1)"
      using Cons.prems(2) by auto
    then have cl: "closes text q (a + j) c = closes seg q j c"
      by (simp add: closes_def)
    show ?thesis
    proof (cases "closes seg q j c")
      case True
      with Some ql Cons.prems(1) have
        "(case quote_emit seg (enumerate (Suc j) cs) None of
            (ps, st) \<Rightarrow> ((l, j) # ps, st)) = (ps, st')"
        by (simp only: quote_Some if_True)
      then obtain ps' where
        ps: "ps = (l, j) # ps'" and
        e: "quote_emit seg (enumerate (Suc j) cs) None = (ps', st')"
        by (auto split: prod.splits)
      have "quote_emit text (enumerate (a + Suc j) cs) (shift_state a None) =
           (map (shift_pair a) ps', shift_state a st')"
        by (rule Cons.IH [OF e agree]) simp
      then have "quote_emit text (enumerate (Suc (a + j)) cs) None =
           (map (shift_pair a) ps', shift_state a st')"
        by (simp add: shift_state_def)
      with True cl show ?thesis
        unfolding Some ql ps shift_state_def
        by (simp only: quote_Some if_True option.map prod.case)
          (simp add: shift_pair_def)
    next
      case False
      with Some ql Cons.prems(1)
      have e: "quote_emit seg (enumerate (Suc j) cs) (Some (q, l)) = (ps, st')"
        by (simp only: quote_Some if_False)
      have "quote_emit text (enumerate (a + Suc j) cs) (shift_state a (Some (q, l))) =
           (map (shift_pair a) ps, shift_state a st')"
        by (rule Cons.IH [OF e agree]) (use lj in simp)
      then have "quote_emit text (enumerate (Suc (a + j)) cs) (Some (q, a + l)) =
           (map (shift_pair a) ps, shift_state a st')"
        by (simp add: shift_state_def)
      with False cl show ?thesis
        unfolding Some ql shift_state_def
        by (simp only: quote_Some if_False option.map prod.case)
    qed
  qed
qed

lemma quote_emit_split:
  "quote_emit text (enumerate k xs) st = (p1, s1) \<Longrightarrow>
   quote_emit text (enumerate (k + length xs) ys) s1 = (p2, s2) \<Longrightarrow>
   quote_emit text (enumerate k (xs @ ys)) st = (p1 @ p2, s2)"
  by (simp add: enumerate_append_eq quote_emit_append)

lemma quote_state_at_top_level:
  assumes "find_quote_position text = Inr Q"
      and "text = xs @ c # ys" and "c \<noteq> sq" and "c \<noteq> dq"
      and "\<not> is_char_in_pairs (length xs) Q"
  shows "snd (quote_emit text (enumerate 0 xs) None) = None"
proof (rule ccontr)
  assume "snd (quote_emit text (enumerate 0 xs) None) \<noteq> None"
  then obtain p1 q l where e1: "quote_emit text (enumerate 0 xs) None = (p1, Some (q, l))"
    by (cases "quote_emit text (enumerate 0 xs) None") auto
  have r1: "(q = sq \<or> q = dq) \<and> l < length xs"
    using quote_emit_range [OF e1] by auto
  obtain p2 s2 where e2: "quote_emit text (enumerate (length xs) (c # ys)) (Some (q, l)) = (p2, s2)"
    by (cases "quote_emit text (enumerate (length xs) (c # ys)) (Some (q, l))")
  have "quote_emit text (enumerate (0 + length xs) (c # ys)) (Some (q, l)) = (p2, s2)"
    using e2 by (simp only: add_0)
  from quote_emit_split [OF e1 this]
  have "quote_emit text (enumerate 0 (xs @ c # ys)) None = (p1 @ p2, s2)" .
  then have "quote_emit text (enumerate 0 text) None = (p1 @ p2, s2)"
    using assms(2) by simp
  with assms(1) have s2: "s2 = None" and Q: "Q = p1 @ p2"
    by (auto simp: find_quote_position_emit split: option.splits)
  have "\<not> closes text q (length xs) c"
    using r1 assms(3,4) by (auto simp: closes_def)
  with e2 s2 have "quote_emit text (enumerate (Suc (length xs)) ys) (Some (q, l)) = (p2, None)"
    by (simp only: quote_Some if_False)
  from quote_emit_close [OF this] obtain r where "Suc (length xs) \<le> r" "(l, r) \<in> set p2"
    by auto
  with r1 Q have "is_char_in_pairs (length xs) Q"
    unfolding is_char_in_pairs_iff by (intro bexI [of _ "(l, r)"]) auto
  with assms(5) show False by simp
qed


lemma is_char_in_pairs_shift:
  "is_char_in_pairs (a + i) (map (shift_pair a) ps) = is_char_in_pairs i ps"
  by (induction ps) (auto simp: shift_pair_def split: if_splits)

lemma is_char_in_pairs_append:
  "is_char_in_pairs p (ps @ qs) \<longleftrightarrow> is_char_in_pairs p ps \<or> is_char_in_pairs p qs"
  by (induction ps) (auto split: if_splits)

lemma quote_clean:
  assumes "find_quote_position text = Inr Q" and "k \<le> length text"
      and "k = 0 \<or> k = length text \<or>
           (k < length text \<and> text ! k = CHR '','' \<and> \<not> is_char_in_pairs k Q) \<or>
           (0 < k \<and> text ! (k - 1) = CHR '','' \<and> \<not> is_char_in_pairs (k - 1) Q)"
  shows "snd (quote_emit text (enumerate 0 (take k text)) None) = None"
proof -
  have comma: "CHR '','' \<noteq> sq" "CHR '','' \<noteq> dq" by (simp_all add: sq_def dq_def)
  consider (zero) "k = 0" | (all) "k = length text"
    | (before) "k < length text" "text ! k = CHR '',''" "\<not> is_char_in_pairs k Q"
    | (after) "0 < k" "text ! (k - 1) = CHR '',''" "\<not> is_char_in_pairs (k - 1) Q"
    using assms(3) by blast
  then show ?thesis
  proof cases
    case zero
    then show ?thesis by simp
  next
    case all
    with assms(1) show ?thesis
      by (auto simp: find_quote_position_emit split: prod.splits option.splits)
  next
    case before
    have t: "text = take k text @ CHR '','' # drop (Suc k) text"
      using before(1,2) by (metis id_take_nth_drop)
    have "\<not> is_char_in_pairs (length (take k text)) Q"
      using before(1,3) by simp
    from quote_state_at_top_level [OF assms(1) t comma this] show ?thesis .
  next
    case after
    let ?j = "k - 1"
    have jk: "Suc ?j = k" and jl: "?j < length text" using after(1) assms(2) by auto
    have t: "text = take ?j text @ CHR '','' # drop (Suc ?j) text"
      using jl after(2) by (metis id_take_nth_drop)
    have "\<not> is_char_in_pairs (length (take ?j text)) Q"
      using jl after(3) by simp
    from quote_state_at_top_level [OF assms(1) t comma this]
    obtain p1 where e1: "quote_emit text (enumerate 0 (take ?j text)) None = (p1, None)"
      by (cases "quote_emit text (enumerate 0 (take ?j text)) None") auto
    have tk: "take k text = take ?j text @ [CHR '','']"
      using jk jl after(2) by (metis take_Suc_conv_app_nth)
    have "quote_emit text (enumerate (0 + length (take ?j text)) [CHR '','']) None = ([], None)"
      using comma by simp
    from quote_emit_split [OF e1 this] show ?thesis
      unfolding tk by simp
  qed
qed

lemma quote_segment:
  assumes "find_quote_position text = Inr Q"
      and "a \<le> b" and "b \<le> length text"
      and "snd (quote_emit text (enumerate 0 (take a text)) None) = None"
      and "snd (quote_emit text (enumerate 0 (take b text)) None) = None"
  shows "\<exists>Qs. find_quote_position (take (b - a) (drop a text)) = Inr Qs \<and>
           (\<forall>i < b - a. is_char_in_pairs i Qs \<longleftrightarrow> is_char_in_pairs (a + i) Q)"
proof -
  let ?seg = "take (b - a) (drop a text)"
  have la: "length (take a text) = a" and ls: "length ?seg = b - a"
    using assms(2,3) by auto
  have tb: "take b text = take a text @ ?seg"
    using assms(2) by (metis le_add_diff_inverse take_add)
  have tt: "text = take b text @ drop b text" by simp
  obtain p1 where e1: "quote_emit text (enumerate 0 (take a text)) None = (p1, None)"
    using assms(4) by (cases "quote_emit text (enumerate 0 (take a text)) None") auto
  obtain p2 s2 where e2: "quote_emit text (enumerate a ?seg) None = (p2, s2)"
    by (cases "quote_emit text (enumerate a ?seg) None")
  obtain p3 s3 where e3: "quote_emit text (enumerate b (drop b text)) s2 = (p3, s3)"
    by (cases "quote_emit text (enumerate b (drop b text)) s2")
  have e2': "quote_emit text (enumerate (0 + length (take a text)) ?seg) None = (p2, s2)"
    using e2 la by simp
  have e12: "quote_emit text (enumerate 0 (take b text)) None = (p1 @ p2, s2)"
    using quote_emit_split [OF e1 e2'] tb by simp
  with assms(5) have s2: "s2 = None" by simp
  have e3': "quote_emit text (enumerate (0 + length (take b text)) (drop b text)) s2 = (p3, s3)"
    using e3 assms(3) by simp
  have "quote_emit text (enumerate 0 (take b text @ drop b text)) None = ((p1 @ p2) @ p3, s3)"
    by (rule quote_emit_split [OF e12 e3'])
  then have "quote_emit text (enumerate 0 text) None = (p1 @ p2 @ p3, s3)"
    by simp
  with assms(1) have Q: "Q = p1 @ p2 @ p3"
    by (auto simp: find_quote_position_emit split: option.splits)
  have r1: "\<forall>(l, r) \<in> set p1. r < a"
    using quote_emit_range [OF e1] la by auto
  have r2: "\<forall>(l, r) \<in> set p2. a \<le> l \<and> l < r \<and> r < b"
    using quote_emit_range [OF e2] ls assms(2) by auto
  have r3: "\<forall>(l, r) \<in> set p3. b \<le> l"
    using quote_emit_range [OF e3] s2 by auto
  have inQ: "\<forall>i < b - a. is_char_in_pairs (a + i) Q \<longleftrightarrow> is_char_in_pairs (a + i) p2"
    using r1 r3 unfolding Q is_char_in_pairs_append
    by (auto simp: is_char_in_pairs_iff)
  obtain ps st where es: "quote_emit ?seg (enumerate 0 ?seg) None = (ps, st)"
    by (cases "quote_emit ?seg (enumerate 0 ?seg) None")
  have agree: "\<forall>i. 0 \<le> i \<and> i < 0 + length ?seg \<and> 0 < i \<longrightarrow>
      text ! (a + i - 1) = ?seg ! (i - 1)"
    using assms(2,3) by auto
  have "quote_emit text (enumerate (a + 0) ?seg) (shift_state a None) =
      (map (shift_pair a) ps, shift_state a st)"
    by (rule quote_emit_shift [OF es agree]) simp
  with e2 s2 have p2: "p2 = map (shift_pair a) ps" and st: "st = None"
    by (auto simp: shift_state_def)
  have "find_quote_position ?seg = Inr ps"
    using es st by (simp add: find_quote_position_emit)
  moreover have "\<forall>i < b - a. is_char_in_pairs i ps \<longleftrightarrow> is_char_in_pairs (a + i) Q"
    using inQ unfolding p2 is_char_in_pairs_shift by simp
  ultimately show ?thesis by blast
qed


section \<open>Bracket scans of parts of a text\<close>

lemma bracket_emit_append:
  "bracket_emit bl br pq (xs @ ys) st =
     (case bracket_emit bl br pq xs st of
        Inl e \<Rightarrow> Inl e
      | Inr (p1, s1) \<Rightarrow>
          (case bracket_emit bl br pq ys s1 of
             Inl e \<Rightarrow> Inl e
           | Inr (p2, s2) \<Rightarrow> Inr (p1 @ p2, s2)))"
proof (induction xs arbitrary: st)
  case Nil
  then show ?case by (simp split: sum.splits prod.splits)
next
  case (Cons x xs)
  obtain i c where x: "x = (i, c)" by (cases x)
  show ?case
    unfolding x append_Cons bracket_emit_Cons
    by (simp add: Cons.IH split: sum.splits prod.splits list.splits)
qed

lemma bracket_emit_split:
  "bracket_emit bl br pq (enumerate k xs) st = Inr (p1, s1) \<Longrightarrow>
   bracket_emit bl br pq (enumerate (k + length xs) ys) s1 = Inr (p2, s2) \<Longrightarrow>
   bracket_emit bl br pq (enumerate k (xs @ ys)) st = Inr (p1 @ p2, s2)"
  by (simp add: enumerate_append_eq bracket_emit_append)

lemma bracket_emit_unsplit:
  assumes "bracket_emit bl br pq (enumerate k (xs @ ys)) st = Inr (ps, s2)"
  shows "\<exists>p1 s1 p2. bracket_emit bl br pq (enumerate k xs) st = Inr (p1, s1) \<and>
           bracket_emit bl br pq (enumerate (k + length xs) ys) s1 = Inr (p2, s2) \<and>
           ps = p1 @ p2"
  using assms
  by (auto simp: enumerate_append_eq bracket_emit_append split: sum.splits prod.splits)

lemma bracket_emit_stack:
  assumes "bracket_emit bl br pq (enumerate k ys) pstack = Inr (ps, st)"
  shows "\<forall>s \<in> set st. s \<in> set pstack \<or> (k \<le> s \<and> s < k + length ys)"
  using assms
proof (induction ys arbitrary: k pstack ps)
  case Nil
  then show ?case by simp
next
  case (Cons c cs)
  show ?case
  proof (cases "opens bl pq k c")
    case True
    with Cons.prems have "bracket_emit bl br pq (enumerate (Suc k) cs) (k # pstack) = Inr (ps, st)"
      by (simp only: bracket_Cons if_True)
    from Cons.IH [OF this] show ?thesis by fastforce
  next
    case notl: False
    show ?thesis
    proof (cases "opens br pq k c")
      case False
      with notl Cons.prems have "bracket_emit bl br pq (enumerate (Suc k) cs) pstack = Inr (ps, st)"
        by (simp only: bracket_Cons if_False)
      from Cons.IH [OF this] show ?thesis by fastforce
    next
      case True
      from notl True Cons.prems have
        "(case pstack of
           [] \<Rightarrow> Inl (NoMatchingClosingParens k)
         | p # pstack' \<Rightarrow>
             (case bracket_emit bl br pq (enumerate (Suc k) cs) pstack' of
                Inl e \<Rightarrow> Inl e
              | Inr (ps, st) \<Rightarrow> Inr ((p, k) # ps, st))) = Inr (ps, st)"
        by (simp only: bracket_Cons if_False if_True)
      then obtain p pstack' ps' where
        st: "pstack = p # pstack'" and
        e: "bracket_emit bl br pq (enumerate (Suc k) cs) pstack' = Inr (ps', st)"
        by (auto split: list.splits sum.splits)
      from Cons.IH [OF e] show ?thesis unfolding st by fastforce
    qed
  qed
qed

lemma bracket_emit_close:
  assumes "bracket_emit bl br pq (enumerate k ys) pstack = Inr (ps, st)"
      and "s \<in> set pstack" and "s \<notin> set st"
  shows "\<exists>r. k \<le> r \<and> (s, r) \<in> set ps"
  using assms
proof (induction ys arbitrary: k pstack ps)
  case Nil
  then show ?case by simp
next
  case (Cons c cs)
  show ?case
  proof (cases "opens bl pq k c")
    case True
    with Cons.prems(1) have e: "bracket_emit bl br pq (enumerate (Suc k) cs) (k # pstack) = Inr (ps, st)"
      by (simp only: bracket_Cons if_True)
    have "\<exists>r. Suc k \<le> r \<and> (s, r) \<in> set ps"
      using Cons.prems(2,3) by (intro Cons.IH [OF e]) simp_all
    then show ?thesis by (auto intro: Suc_leD)
  next
    case notl: False
    show ?thesis
    proof (cases "opens br pq k c")
      case False
      with notl Cons.prems(1) have e: "bracket_emit bl br pq (enumerate (Suc k) cs) pstack = Inr (ps, st)"
        by (simp only: bracket_Cons if_False)
      have "\<exists>r. Suc k \<le> r \<and> (s, r) \<in> set ps"
        using Cons.prems(2,3) by (intro Cons.IH [OF e]) simp_all
      then show ?thesis by (auto intro: Suc_leD)
    next
      case True
      from notl True Cons.prems(1) have
        "(case pstack of
           [] \<Rightarrow> Inl (NoMatchingClosingParens k)
         | p # pstack' \<Rightarrow>
             (case bracket_emit bl br pq (enumerate (Suc k) cs) pstack' of
                Inl e \<Rightarrow> Inl e
              | Inr (ps, st) \<Rightarrow> Inr ((p, k) # ps, st))) = Inr (ps, st)"
        by (simp only: bracket_Cons if_False if_True)
      then obtain p pstack' ps' where
        st: "pstack = p # pstack'" and ps: "ps = (p, k) # ps'" and
        e: "bracket_emit bl br pq (enumerate (Suc k) cs) pstack' = Inr (ps', st)"
        by (auto split: list.splits sum.splits)
      show ?thesis
      proof (cases "s = p")
        case True
        then show ?thesis unfolding ps by auto
      next
        case False
        then have "s \<in> set pstack'" using Cons.prems(2) st by simp
        then have "\<exists>r. Suc k \<le> r \<and> (s, r) \<in> set ps'"
          using Cons.prems(3) by (intro Cons.IH [OF e]) simp_all
        then show ?thesis unfolding ps by (auto intro: Suc_leD)
      qed
    qed
  qed
qed

lemma bracket_emit_shift:
  assumes "bracket_emit bl br pqT (enumerate (a + j) ys) (map ((+) a) st) = Inr (psT, stT)"
      and "\<forall>i. j \<le> i \<and> i < j + length ys \<longrightarrow>
             is_char_in_pairs (a + i) pqT = is_char_in_pairs i pqS"
  shows "\<exists>psS stS. bracket_emit bl br pqS (enumerate j ys) st = Inr (psS, stS) \<and>
           psT = map (shift_pair a) psS \<and> stT = map ((+) a) stS"
  using assms
proof (induction ys arbitrary: j st psT)
  case Nil
  then show ?case by simp
next
  case (Cons c cs)
  have agree: "\<forall>i. Suc j \<le> i \<and> i < Suc j + length cs \<longrightarrow>
      is_char_in_pairs (a + i) pqT = is_char_in_pairs i pqS"
    using Cons.prems(2) by auto
  have here: "is_char_in_pairs (a + j) pqT = is_char_in_pairs j pqS"
    using Cons.prems(2) by auto
  then have ol: "opens bl pqT (a + j) c = opens bl pqS j c"
    and orr: "opens br pqT (a + j) c = opens br pqS j c"
    by (simp_all add: opens_def)
  show ?case
  proof (cases "opens bl pqS j c")
    case True
    with ol Cons.prems(1)
    have "bracket_emit bl br pqT (enumerate (Suc (a + j)) cs) ((a + j) # map ((+) a) st) = Inr (psT, stT)"
      by (simp only: bracket_Cons if_True)
    then have e: "bracket_emit bl br pqT (enumerate (a + Suc j) cs) (map ((+) a) (j # st)) = Inr (psT, stT)"
      by simp
    from Cons.IH [OF e agree] True show ?thesis
      by (simp only: bracket_Cons if_True)
  next
    case notl: False
    show ?thesis
    proof (cases "opens br pqS j c")
      case False
      with notl ol orr Cons.prems(1)
      have "bracket_emit bl br pqT (enumerate (Suc (a + j)) cs) (map ((+) a) st) = Inr (psT, stT)"
        by (simp only: bracket_Cons if_False)
      then have e: "bracket_emit bl br pqT (enumerate (a + Suc j) cs) (map ((+) a) st) = Inr (psT, stT)"
        by simp
      from Cons.IH [OF e agree] notl False show ?thesis
        by (simp only: bracket_Cons if_False)
    next
      case True
      from notl True ol orr Cons.prems(1) have
        "(case map ((+) a) st of
           [] \<Rightarrow> Inl (NoMatchingClosingParens (a + j))
         | p # pstack' \<Rightarrow>
             (case bracket_emit bl br pqT (enumerate (Suc (a + j)) cs) pstack' of
                Inl e \<Rightarrow> Inl e
              | Inr (ps, st) \<Rightarrow> Inr ((p, a + j) # ps, st))) = Inr (psT, stT)"
        by (simp only: bracket_Cons if_False if_True)
      then obtain p st' ps' where
        st: "st = p # st'" and ps: "psT = (a + p, a + j) # ps'" and
        "bracket_emit bl br pqT (enumerate (Suc (a + j)) cs) (map ((+) a) st') = Inr (ps', stT)"
        by (cases st) (auto split: sum.splits)
      then have e: "bracket_emit bl br pqT (enumerate (a + Suc j) cs) (map ((+) a) st') = Inr (ps', stT)"
        by simp
      from Cons.IH [OF e agree] obtain psS stS where
        "bracket_emit bl br pqS (enumerate (Suc j) cs) st' = Inr (psS, stS)"
        "ps' = map (shift_pair a) psS" "stT = map ((+) a) stS"
        by auto
      with notl True st ps show ?thesis
        by (simp only: bracket_Cons if_False if_True) (simp add: shift_pair_def)
    qed
  qed
qed


text \<open>
  Claim C8. When the bracket scan of a text succeeds, whatever the quote map it is given,
  every pair of the resulting map has its opening position strictly before its closing
  position (which lies inside the text), no two pairs share an opening or a closing
  position, and any two different pairs are either disjoint or one lies strictly inside
  the other.
\<close>

theorem bracket_pairs_well_nested:
  assumes "find_bracket_position text bracket_left bracket_right pos_quote = Inr pos"
  shows "(\<forall>(l, r) \<in> set pos. l < r \<and> r < length text) \<and>
         distinct (map fst pos) \<and> distinct (map snd pos) \<and>
         (\<forall>(l1, r1) \<in> set pos. \<forall>(l2, r2) \<in> set pos.
            (l1, r1) = (l2, r2) \<or> r1 < l2 \<or> r2 < l1 \<or>
            (l1 < l2 \<and> r2 < r1) \<or> (l2 < l1 \<and> r1 < r2))"
proof -
  from assms obtain st where
    e: "bracket_emit bracket_left bracket_right pos_quote (enumerate 0 text) [] = Inr (pos, st)"
    by (auto simp: find_bracket_position_emit split: sum.splits list.splits)
  have "(\<forall>(l, r) \<in> set pos. l < r \<and> 0 \<le> r \<and> r < 0 + length text \<and> (0 \<le> l \<or> l \<in> set [])) \<and>
         distinct (map fst pos) \<and> distinct (map snd pos) \<and> laminar pos"
    by (rule bracket_emit_inv [OF e]) simp_all
  then show ?thesis unfolding laminar_def by auto
qed

theorem bracket_pairs_well_nested_witness:
  "find_bracket_position ''(a(b)[c)]'' (CHR ''('') (CHR '')'') [] = Inr [(2, 4), (0, 7)] \<and>
   distinct (map snd [(2::nat, 4::nat), (0, 7)]) \<and> (0::nat) < 2 \<and> (4::nat) < 7"
proof -
  have e: "find_bracket_position ''(a(b)[c)]'' (CHR ''('') (CHR '')'') [] = Inr [(2, 4), (0, 7)]"
    by code_simp
  from bracket_pairs_well_nested [OF e] e show ?thesis by simp
qed

lemma bracket_clean:
  assumes "find_bracket_position text bl br pq = Inr R" and "k \<le> length text"
      and "bl \<noteq> CHR '',''" and "br \<noteq> CHR '',''"
      and "k = 0 \<or> k = length text \<or>
           (k < length text \<and> text ! k = CHR '','' \<and> \<not> is_char_in_pairs k R) \<or>
           (0 < k \<and> text ! (k - 1) = CHR '','' \<and> \<not> is_char_in_pairs (k - 1) R)"
  shows "\<exists>p1. bracket_emit bl br pq (enumerate 0 (take k text)) [] = Inr (p1, [])"
proof -
  from assms(1) have full: "bracket_emit bl br pq (enumerate 0 text) [] = Inr (R, [])"
    by (auto simp: find_bracket_position_emit split: sum.splits list.splits)
  have no: "\<not> opens bl pq j (CHR '','')" "\<not> opens br pq j (CHR '','')" for j
    using assms(3,4) by (auto simp: opens_def)
  have at_comma: "\<exists>p1. bracket_emit bl br pq (enumerate 0 (take j text)) [] = Inr (p1, [])"
    if j: "j < length text" "text ! j = CHR '',''" "\<not> is_char_in_pairs j R" for j
  proof -
    have t: "text = take j text @ CHR '','' # drop (Suc j) text"
      using j(1,2) by (metis id_take_nth_drop)
    have "bracket_emit bl br pq (enumerate 0 (take j text @ CHR '','' # drop (Suc j) text)) [] =
        Inr (R, [])"
      using full t by simp
    from bracket_emit_unsplit [OF this] obtain p1 s1 p2 where
      e1: "bracket_emit bl br pq (enumerate 0 (take j text)) [] = Inr (p1, s1)" and
      e2: "bracket_emit bl br pq (enumerate (0 + length (take j text))
             (CHR '','' # drop (Suc j) text)) s1 = Inr (p2, [])" and
      R: "R = p1 @ p2"
      by blast
    have lj: "length (take j text) = j" using j(1) by simp
    have e2': "bracket_emit bl br pq (enumerate (Suc j) (drop (Suc j) text)) s1 = Inr (p2, [])"
      using e2 no unfolding lj by (simp only: add_0 bracket_Cons if_False)
    have "s1 = []"
    proof (rule ccontr)
      assume "s1 \<noteq> []"
      then obtain s where s: "s \<in> set s1" by (cases s1) auto
      have "s < j" using bracket_emit_stack [OF e1] s lj by auto
      moreover obtain r where "Suc j \<le> r" "(s, r) \<in> set p2"
        using bracket_emit_close [OF e2' s] by auto
      ultimately have "is_char_in_pairs j R"
        unfolding R is_char_in_pairs_iff by (intro bexI [of _ "(s, r)"]) auto
      with j(3) show False by simp
    qed
    with e1 show ?thesis by blast
  qed
  consider (zero) "k = 0" | (all) "k = length text"
    | (before) "k < length text" "text ! k = CHR '',''" "\<not> is_char_in_pairs k R"
    | (after) "0 < k" "text ! (k - 1) = CHR '',''" "\<not> is_char_in_pairs (k - 1) R"
    using assms(5) by blast
  then show ?thesis
  proof cases
    case zero
    then show ?thesis by simp
  next
    case all
    with full show ?thesis by simp
  next
    case before
    then show ?thesis by (rule at_comma)
  next
    case after
    let ?j = "k - 1"
    have jk: "Suc ?j = k" and jl: "?j < length text" using after(1) assms(2) by auto
    from at_comma [OF jl after(2,3)] obtain p1 where
      e1: "bracket_emit bl br pq (enumerate 0 (take ?j text)) [] = Inr (p1, [])" by blast
    have tk: "take k text = take ?j text @ [CHR '','']"
      using jk jl after(2) by (metis take_Suc_conv_app_nth)
    have "bracket_emit bl br pq (enumerate (0 + length (take ?j text)) [CHR '','']) [] = Inr ([], [])"
      using no by (simp only: bracket_Cons if_False bracket_emit.simps)
    from bracket_emit_split [OF e1 this] show ?thesis
      unfolding tk by auto
  qed
qed

lemma bracket_segment:
  assumes "find_bracket_position text bl br Q = Inr R"
      and "a \<le> b" and "b \<le> length text"
      and "bracket_emit bl br Q (enumerate 0 (take a text)) [] = Inr (p1, [])"
      and "bracket_emit bl br Q (enumerate 0 (take b text)) [] = Inr (p12, [])"
      and "\<forall>i < b - a. is_char_in_pairs i Qs \<longleftrightarrow> is_char_in_pairs (a + i) Q"
  shows "\<exists>Rs. find_bracket_position (take (b - a) (drop a text)) bl br Qs = Inr Rs \<and>
           (\<forall>i < b - a. is_char_in_pairs i Rs \<longleftrightarrow> is_char_in_pairs (a + i) R)"
proof -
  let ?seg = "take (b - a) (drop a text)"
  have la: "length (take a text) = a" and ls: "length ?seg = b - a"
    and lb: "length (take b text) = b"
    using assms(2,3) by auto
  have tb: "take b text = take a text @ ?seg"
    using assms(2) by (metis le_add_diff_inverse take_add)
  from assms(1) have full: "bracket_emit bl br Q (enumerate 0 text) [] = Inr (R, [])"
    by (auto simp: find_bracket_position_emit split: sum.splits list.splits)
  have "bracket_emit bl br Q (enumerate 0 (take a text @ ?seg)) [] = Inr (p12, [])"
    using assms(5) tb by simp
  from bracket_emit_unsplit [OF this] assms(4) obtain p2 where
    e2: "bracket_emit bl br Q (enumerate a ?seg) [] = Inr (p2, [])" and p12: "p12 = p1 @ p2"
    unfolding la by auto
  have "bracket_emit bl br Q (enumerate 0 (take b text @ drop b text)) [] = Inr (R, [])"
    using full by simp
  from bracket_emit_unsplit [OF this] assms(5) obtain p3 where
    e3: "bracket_emit bl br Q (enumerate b (drop b text)) [] = Inr (p3, [])" and R: "R = p12 @ p3"
    unfolding lb by auto
  have r1: "\<forall>(l, r) \<in> set p1. r < a"
    using bracket_emit_inv [OF assms(4)] la by auto
  have r2: "\<forall>(l, r) \<in> set p2. a \<le> l \<and> l < r \<and> r < b"
    using bracket_emit_inv [OF e2] ls assms(2) by auto
  have r3: "\<forall>(l, r) \<in> set p3. b \<le> l"
    using bracket_emit_inv [OF e3] by auto
  have inR: "\<forall>i < b - a. is_char_in_pairs (a + i) R \<longleftrightarrow> is_char_in_pairs (a + i) p2"
    using r1 r3 unfolding R p12 is_char_in_pairs_append
    by (auto simp: is_char_in_pairs_iff)
  have agree: "\<forall>i. 0 \<le> i \<and> i < 0 + length ?seg \<longrightarrow>
      is_char_in_pairs (a + i) Q = is_char_in_pairs i Qs"
    using assms(6) ls by auto
  have "bracket_emit bl br Q (enumerate (a + 0) ?seg) (map ((+) a) []) = Inr (p2, [])"
    using e2 by simp
  from bracket_emit_shift [OF this agree] obtain Rs where
    es: "bracket_emit bl br Qs (enumerate 0 ?seg) [] = Inr (Rs, [])" and
    p2: "p2 = map (shift_pair a) Rs"
    by auto
  have "find_bracket_position ?seg bl br Qs = Inr Rs"
    using es by (simp add: find_bracket_position_emit)
  moreover have "\<forall>i < b - a. is_char_in_pairs i Rs \<longleftrightarrow> is_char_in_pairs (a + i) R"
    using inR unfolding p2 is_char_in_pairs_shift by simp
  ultimately show ?thesis by blast
qed


section \<open>The loop of the splitter\<close>

lemma find_aux_char_none: "find_aux [c] xs i = - 1 \<longleftrightarrow> c \<notin> set xs"
proof (induction xs arbitrary: i)
  case Nil
  then show ?case by simp
next
  case (Cons x xs)
  then show ?case by auto
qed

lemma find_aux_char_some:
  "c \<in> set xs \<Longrightarrow>
   \<exists>j < length xs. find_aux [c] xs i = int (i + j) \<and> xs ! j = c \<and> c \<notin> set (take j xs)"
proof (induction xs arbitrary: i)
  case Nil
  then show ?case by simp
next
  case (Cons x xs)
  show ?case
  proof (cases "x = c")
    case True
    then show ?thesis by (intro exI [of _ 0]) simp
  next
    case False
    with Cons.prems have "c \<in> set xs" by simp
    from Cons.IH [OF this, of "Suc i"] obtain j where
      j: "j < length xs" "find_aux [c] xs (Suc i) = int (Suc i + j)" "xs ! j = c"
         "c \<notin> set (take j xs)"
      by blast
    with False show ?thesis by (intro exI [of _ "Suc j"]) auto
  qed
qed

lemma str_find_char_none:
  assumes "str_find text [c] f = - 1"
  shows "\<forall>p. f \<le> p \<and> p < length text \<longrightarrow> text ! p \<noteq> c"
proof (intro allI impI)
  fix p assume p: "f \<le> p \<and> p < length text"
  then have "find_aux [c] (drop f text) f = - 1"
    using assms by (simp add: str_find_def split: if_splits)
  then have "c \<notin> set (drop f text)" by (simp add: find_aux_char_none)
  moreover have "text ! p = drop f text ! (p - f)" and "p - f < length (drop f text)"
    using p by auto
  ultimately show "text ! p \<noteq> c" by (metis nth_mem)
qed

lemma str_find_char_some:
  assumes "str_find text [c] f \<noteq> - 1"
  shows "\<exists>p. str_find text [c] f = int p \<and> f \<le> p \<and> p < length text \<and> text ! p = c \<and>
           (\<forall>q. f \<le> q \<and> q < p \<longrightarrow> text ! q \<noteq> c)"
proof -
  from assms have fl: "f \<le> length text" and e: "str_find text [c] f = find_aux [c] (drop f text) f"
    by (auto simp: str_find_def split: if_splits)
  with assms have "c \<in> set (drop f text)" by (simp add: find_aux_char_none)
  from find_aux_char_some [OF this, of f] obtain j where
    j: "j < length (drop f text)" "find_aux [c] (drop f text) f = int (f + j)"
       "drop f text ! j = c" "c \<notin> set (take j (drop f text))"
    by blast
  have "\<forall>q. f \<le> q \<and> q < f + j \<longrightarrow> text ! q \<noteq> c"
  proof (intro allI impI)
    fix q assume q: "f \<le> q \<and> q < f + j"
    then have "take j (drop f text) ! (q - f) = text ! q" using j(1) by auto
    moreover have "q - f < length (take j (drop f text))" using q j(1) by auto
    ultimately show "text ! q \<noteq> c" using j(4) by (metis nth_mem)
  qed
  with j e fl show ?thesis by (intro exI [of _ "f + j"]) auto
qed

lemma filter_upt_skip:
  assumes "f \<le> p" and "p < n" and "\<forall>q. f \<le> q \<and> q < p \<longrightarrow> \<not> P q"
  shows "filter P [f ..< n] = (if P p then [p] else []) @ filter P [Suc p ..< n]"
proof -
  have "[f ..< n] = [f ..< p] @ p # [Suc p ..< n]"
    using assms(1,2) by (metis le_Suc_ex less_imp_le_nat upt_add_eq_append upt_conv_Cons)
  moreover have "filter P [f ..< p] = []"
    using assms(3) by (auto simp: filter_empty_conv)
  ultimately show ?thesis by simp
qed

lemma py_slice_nat:
  "a \<le> p \<Longrightarrow> p \<le> length text \<Longrightarrow> py_slice text (int a) (int p) = take (p - a) (drop a text)"
  by (simp add: py_slice_def slice_index_def min_def)

lemma py_slice_from_nat: "py_slice_from text (int a) = drop a text"
  by (simp add: py_slice_from_def slice_index_def min_def)

lemma split_loop_segments:
  assumes "a \<le> f"
  shows "(case split_loop t pr pc ps pq f a acc of
            (args_list, s) \<Rightarrow>
              (if s < length t then args_list @ [py_slice_from t (int s)] else args_list)) =
         acc @ segments t a
           (filter (\<lambda>p. t ! p = CHR '','' \<and> \<not> enclosed pr pc ps pq p) [f ..< length t])"
  using assms
proof (induction t pr pc ps pq f a acc rule: split_loop.induct)
  case (1 t pr pc ps pq f a acc)
  let ?P = "\<lambda>p. t ! p = CHR '','' \<and> \<not> enclosed pr pc ps pq p"
  show ?case
  proof (cases "str_find t '','' f = - 1")
    case True
    have "filter ?P [f ..< length t] = []"
      using str_find_char_none [OF True] by (auto simp: filter_empty_conv)
    with True show ?thesis
      by (subst split_loop.simps) (simp add: py_slice_from_nat Let_def)
  next
    case False
    from str_find_char_some [OF False] obtain p where
      p: "str_find t '','' f = int p" "f \<le> p" "p < length t" "t ! p = CHR '',''"
         "\<forall>q. f \<le> q \<and> q < p \<longrightarrow> t ! q \<noteq> CHR '',''"
      by blast
    have skip: "filter ?P [f ..< length t] =
        (if ?P p then [p] else []) @ filter ?P [Suc p ..< length t]"
      using p by (intro filter_upt_skip) auto
    show ?thesis
    proof (cases "enclosed pr pc ps pq p")
      case True
      then have enc: "is_char_in_pairs (nat (int p)) pr \<or> is_char_in_pairs (nat (int p)) pc \<or>
          is_char_in_pairs (nat (int p)) ps \<or> is_char_in_pairs (nat (int p)) pq"
        by (simp add: enclosed_def)
      have ih: "(case split_loop t pr pc ps pq (nat (int p) + 1) a acc of
            (args_list, s) \<Rightarrow>
              (if s < length t then args_list @ [py_slice_from t (int s)] else args_list)) =
         acc @ segments t a (filter ?P [nat (int p) + 1 ..< length t])"
        using "1.prems" p(2) by (intro "1.IH"(1) [OF p(1) [symmetric] _ enc]) (simp_all add: p(1))
      have "split_loop t pr pc ps pq f a acc = split_loop t pr pc ps pq (Suc p) a acc"
        using True by (subst split_loop.simps) (simp add: p(1) enclosed_def Let_def)
      with ih skip True show ?thesis by simp
    next
      case False
      then have enc: "\<not> (is_char_in_pairs (nat (int p)) pr \<or> is_char_in_pairs (nat (int p)) pc \<or>
          is_char_in_pairs (nat (int p)) ps \<or> is_char_in_pairs (nat (int p)) pq)"
        by (simp add: enclosed_def)
      have ih: "(case split_loop t pr pc ps pq (nat (int p) + 1) (nat (int p) + 1)
                  (acc @ [py_slice t (int a) (int p)]) of
            (args_list, s) \<Rightarrow>
              (if s < length t then args_list @ [py_slice_from t (int s)] else args_list)) =
         (acc @ [py_slice t (int a) (int p)]) @
           segments t (nat (int p) + 1) (filter ?P [nat (int p) + 1 ..< length t])"
        by (intro "1.IH"(2) [OF p(1) [symmetric] _ enc]) (simp_all add: p(1))
      have "split_loop t pr pc ps pq f a acc =
          split_loop t pr pc ps pq (Suc p) (Suc p) (acc @ [py_slice t (int a) (int p)])"
        using False by (subst split_loop.simps) (simp add: p(1) enclosed_def Let_def)
      moreover have "py_slice t (int a) (int p) = take (p - a) (drop a t)"
        using "1.prems" p(2,3) by (intro py_slice_nat) auto
      ultimately show ?thesis using ih skip False p(4) by simp
    qed
  qed
qed

lemma split_args_text_to_list_eq:
  assumes "find_quote_position text = Inr pos_quote"
      and "find_bracket_position text (CHR ''('') (CHR '')'') pos_quote = Inr pos_round"
      and "find_bracket_position text (CHR ''{'') (CHR ''}'') pos_quote = Inr pos_curly"
      and "find_bracket_position text (CHR ''['') (CHR '']'') pos_quote = Inr pos_square"
  shows "split_args_text_to_list text =
           Some (segments text 0 (split_points text pos_round pos_curly pos_square pos_quote))"
  using split_loop_segments [of 0 0 "text" pos_round pos_curly pos_square pos_quote "[]"] assms
  by (auto simp: split_args_text_to_list_def split_points_def py_slice_from_nat
      split: prod.splits if_splits)


lemma segments_front:
  "\<exists>front. length front = length pts \<and>
     segments text a pts =
       front @ (if (if pts = [] then a else Suc (last pts)) < length text
                then [drop (if pts = [] then a else Suc (last pts)) text] else [])"
proof (induction pts arbitrary: a)
  case Nil
  then show ?case by simp
next
  case (Cons p ps)
  from Cons.IH [of "Suc p"] obtain front where
    f: "length front = length ps"
       "segments text (Suc p) ps =
          front @ (if (if ps = [] then Suc p else Suc (last ps)) < length text
                   then [drop (if ps = [] then Suc p else Suc (last ps)) text] else [])"
    by blast
  show ?case
    by (rule exI [of _ "take (p - a) (drop a text) # front"]) (use f in auto)
qed

lemma segments_boundaries:
  assumes "seg \<in> set (segments text a pts)"
      and "sorted_wrt (<) pts" and "\<forall>p \<in> set pts. a \<le> p \<and> p < length text"
  shows "\<exists>s e. s \<le> e \<and> e \<le> length text \<and> seg = take (e - s) (drop s text) \<and>
           a \<le> s \<and> (s = a \<or> (0 < s \<and> s - 1 \<in> set pts)) \<and>
           (e = length text \<or> e \<in> set pts) \<and>
           (\<forall>p \<in> set pts. \<not> (s \<le> p \<and> p < e))"
  using assms
proof (induction pts arbitrary: a)
  case Nil
  then have "a < length text" and "seg = drop a text" by (auto split: if_splits)
  then show ?case
    by (intro exI [of _ a] exI [of _ "length text"]) auto
next
  case (Cons p ps)
  from Cons.prems(1) consider (first) "seg = take (p - a) (drop a text)"
    | (rest) "seg \<in> set (segments text (Suc p) ps)"
    by auto
  then show ?case
  proof cases
    case first
    with Cons.prems(2,3) show ?thesis
      by (intro exI [of _ a] exI [of _ p]) auto
  next
    case rest
    have "\<exists>s e. s \<le> e \<and> e \<le> length text \<and> seg = take (e - s) (drop s text) \<and>
           Suc p \<le> s \<and> (s = Suc p \<or> (0 < s \<and> s - 1 \<in> set ps)) \<and>
           (e = length text \<or> e \<in> set ps) \<and>
           (\<forall>q \<in> set ps. \<not> (s \<le> q \<and> q < e))"
      using Cons.prems(2,3) by (intro Cons.IH [OF rest]) auto
    then obtain s e where
      se: "s \<le> e" "e \<le> length text" "seg = take (e - s) (drop s text)" "Suc p \<le> s"
          "s = Suc p \<or> (0 < s \<and> s - 1 \<in> set ps)" "e = length text \<or> e \<in> set ps"
          "\<forall>q \<in> set ps. \<not> (s \<le> q \<and> q < e)"
      by blast
    have "a \<le> s" using se(4) Cons.prems(3) by auto
    moreover have "s = a \<or> (0 < s \<and> s - 1 \<in> set (p # ps))" using se(4,5) by auto
    moreover have "e = length text \<or> e \<in> set (p # ps)" using se(6) by auto
    moreover have "\<forall>q \<in> set (p # ps). \<not> (s \<le> q \<and> q < e)" using se(4,7) by auto
    ultimately show ?thesis using se(1,2,3) by blast
  qed
qed

lemma split_points_set:
  "p \<in> set (split_points text pr pc ps pq) \<longleftrightarrow>
     p < length text \<and> text ! p = CHR '','' \<and> \<not> enclosed pr pc ps pq p"
  by (auto simp: split_points_def)

lemma split_points_sorted: "sorted_wrt (<) (split_points text pr pc ps pq)"
  unfolding split_points_def by (rule sorted_wrt_filter) simp


section \<open>Splitting a segment again\<close>

lemma split_args_text_to_list_scans:
  assumes "split_args_text_to_list text = Some args_list"
  shows "\<exists>Q R C S.
           find_quote_position text = Inr Q \<and>
           find_bracket_position text (CHR ''('') (CHR '')'') Q = Inr R \<and>
           find_bracket_position text (CHR ''{'') (CHR ''}'') Q = Inr C \<and>
           find_bracket_position text (CHR ''['') (CHR '']'') Q = Inr S"
  using assms by (auto simp: split_args_text_to_list_def split: sum.splits)

lemma resplit_segment_aux:
  assumes Q: "find_quote_position text = Inr Q"
      and R: "find_bracket_position text (CHR ''('') (CHR '')'') Q = Inr R"
      and C: "find_bracket_position text (CHR ''{'') (CHR ''}'') Q = Inr C"
      and S: "find_bracket_position text (CHR ''['') (CHR '']'') Q = Inr S"
      and seg: "seg \<in> set (segments text 0 (split_points text R C S Q))"
  shows "split_args_text_to_list seg = Some (if seg = [] then [] else [seg])"
proof -
  let ?pts = "split_points text R C S Q"
  have "\<forall>p \<in> set ?pts. 0 \<le> p \<and> p < length text"
    by (simp add: split_points_set)
  from segments_boundaries [OF seg split_points_sorted this] obtain s e where
    se: "s \<le> e" "e \<le> length text" "seg = take (e - s) (drop s text)"
        "s = 0 \<or> (0 < s \<and> s - 1 \<in> set ?pts)" "e = length text \<or> e \<in> set ?pts"
        "\<forall>p \<in> set ?pts. \<not> (s \<le> p \<and> p < e)"
    by blast
  have sl: "s \<le> length text" using se(1,2) by simp
  have ls: "length seg = e - s" using se(2,3) by simp
  have cs: "s = 0 \<or> s = length text \<or>
           (s < length text \<and> text ! s = CHR '','' \<and> \<not> is_char_in_pairs s M) \<or>
           (0 < s \<and> text ! (s - 1) = CHR '','' \<and> \<not> is_char_in_pairs (s - 1) M)"
    if "M \<in> {Q, R, C, S}" for M
    using se(4) that by (auto simp: split_points_set enclosed_def)
  have ce: "e = 0 \<or> e = length text \<or>
           (e < length text \<and> text ! e = CHR '','' \<and> \<not> is_char_in_pairs e M) \<or>
           (0 < e \<and> text ! (e - 1) = CHR '','' \<and> \<not> is_char_in_pairs (e - 1) M)"
    if "M \<in> {Q, R, C, S}" for M
    using se(5) that by (auto simp: split_points_set enclosed_def)
  have "\<exists>Qs. find_quote_position (take (e - s) (drop s text)) = Inr Qs \<and>
           (\<forall>i < e - s. is_char_in_pairs i Qs \<longleftrightarrow> is_char_in_pairs (s + i) Q)"
    using quote_clean [OF Q sl cs] quote_clean [OF Q se(2) ce]
    by (intro quote_segment [OF Q se(1,2)]) simp_all
  then obtain Qs where
    Qs: "find_quote_position seg = Inr Qs"
        "\<forall>i < e - s. is_char_in_pairs i Qs \<longleftrightarrow> is_char_in_pairs (s + i) Q"
    unfolding se(3) by blast
  have bracket: "\<exists>Ms. find_bracket_position seg bl br Qs = Inr Ms \<and>
           (\<forall>i < e - s. is_char_in_pairs i Ms \<longleftrightarrow> is_char_in_pairs (s + i) M)"
    if M: "find_bracket_position text bl br Q = Inr M" "M \<in> {Q, R, C, S}"
       and ne: "bl \<noteq> CHR '',''" "br \<noteq> CHR '',''" for bl br M
  proof -
    from bracket_clean [OF M(1) sl ne cs [OF M(2)]] obtain p1 where
      p1: "bracket_emit bl br Q (enumerate 0 (take s text)) [] = Inr (p1, [])" by blast
    from bracket_clean [OF M(1) se(2) ne ce [OF M(2)]] obtain p12 where
      p12: "bracket_emit bl br Q (enumerate 0 (take e text)) [] = Inr (p12, [])" by blast
    from bracket_segment [OF M(1) se(1,2) p1 p12 Qs(2)] show ?thesis
      unfolding se(3) .
  qed
  from bracket [OF R] obtain Rs where
    Rs: "find_bracket_position seg (CHR ''('') (CHR '')'') Qs = Inr Rs"
        "\<forall>i < e - s. is_char_in_pairs i Rs \<longleftrightarrow> is_char_in_pairs (s + i) R"
    by auto
  from bracket [OF C] obtain Cs where
    Cs: "find_bracket_position seg (CHR ''{'') (CHR ''}'') Qs = Inr Cs"
        "\<forall>i < e - s. is_char_in_pairs i Cs \<longleftrightarrow> is_char_in_pairs (s + i) C"
    by auto
  from bracket [OF S] obtain Ss where
    Ss: "find_bracket_position seg (CHR ''['') (CHR '']'') Qs = Inr Ss"
        "\<forall>i < e - s. is_char_in_pairs i Ss \<longleftrightarrow> is_char_in_pairs (s + i) S"
    by auto
  have "split_points seg Rs Cs Ss Qs = []"
  proof -
    have "\<not> (seg ! i = CHR '','' \<and> \<not> enclosed Rs Cs Ss Qs i)" if i: "i < length seg" for i
    proof
      assume a: "seg ! i = CHR '','' \<and> \<not> enclosed Rs Cs Ss Qs i"
      have i': "i < e - s" using i ls by simp
      then have "seg ! i = text ! (s + i)" using se(2,3) by simp
      moreover have "\<not> enclosed R C S Q (s + i)"
        using a i' Qs(2) Rs(2) Cs(2) Ss(2) by (simp add: enclosed_def)
      moreover have "s + i < length text" using i' se(2) by simp
      ultimately have "s + i \<in> set ?pts" using a by (simp add: split_points_set)
      with se(6) i' show False by auto
    qed
    then show ?thesis by (auto simp: split_points_def filter_empty_conv)
  qed
  with split_args_text_to_list_eq [OF Qs(1) Rs(1) Cs(1) Ss(1)] show ?thesis
    by auto
qed

text \<open>
  Claim C7, as amended. When the splitter succeeds on a text, running it again on any
  non-empty segment it returned gives exactly the list with that one segment; on an
  empty segment it gives the empty list.
\<close>

theorem resplit_segment:
  assumes "split_args_text_to_list text = Some args_list" and "seg \<in> set args_list"
  shows "split_args_text_to_list seg = Some (if seg = [] then [] else [seg])"
proof -
  from split_args_text_to_list_scans [OF assms(1)] obtain Q R C S where
    s: "find_quote_position text = Inr Q"
       "find_bracket_position text (CHR ''('') (CHR '')'') Q = Inr R"
       "find_bracket_position text (CHR ''{'') (CHR ''}'') Q = Inr C"
       "find_bracket_position text (CHR ''['') (CHR '']'') Q = Inr S"
    by blast
  from split_args_text_to_list_eq [OF s] assms
  have "seg \<in> set (segments text 0 (split_points text R C S Q))" by simp
  from resplit_segment_aux [OF s this] show ?thesis .
qed


theorem resplit_segment_witness:
  "split_args_text_to_list ''a, b=[1,2]'' = Some [''a'', '' b=[1,2]''] \<and>
   split_args_text_to_list '' b=[1,2]'' = Some ['' b=[1,2]'']"
proof -
  have e: "split_args_text_to_list ''a, b=[1,2]'' = Some [''a'', '' b=[1,2]'']"
    by code_simp
  have m: "'' b=[1,2]'' \<in> set [''a'', '' b=[1,2]'']" by simp
  from resplit_segment [OF e m] e show ?thesis by simp
qed

text \<open>
  Claim C7 as stated fails on an empty segment: the text \<open>,a\<close> has the segments \<open>[]\<close>
  and \<open>a\<close>, and splitting the empty segment gives no segment, not the list with the
  empty segment.
\<close>

theorem resplit_empty_segment_counterexample:
  "split_args_text_to_list '',a'' = Some [[], ''a''] \<and>
   split_args_text_to_list [] = Some [] \<and>
   split_args_text_to_list [] \<noteq> Some [[]]"
  by code_simp

text \<open>
  Claim C5. When the four scans of a text succeed, \<open>split_args_text_to_list\<close> returns the
  segments of the text cut at its split points, the commas that no pair of the four maps
  encloses. The argument text of \<open>(a, b=[1,2], c={'x':1}, d: int = 3)\<close> is split into
  exactly four segments, with no cut inside \<open>[1,2]\<close> or \<open>{'x':1}\<close>.
\<close>

theorem split_only_at_top_level_commas:
  "(find_quote_position text = Inr pos_quote \<and>
    find_bracket_position text (CHR ''('') (CHR '')'') pos_quote = Inr pos_round \<and>
    find_bracket_position text (CHR ''{'') (CHR ''}'') pos_quote = Inr pos_curly \<and>
    find_bracket_position text (CHR ''['') (CHR '']'') pos_quote = Inr pos_square \<longrightarrow>
    split_args_text_to_list text =
      Some (segments text 0 (split_points text pos_round pos_curly pos_square pos_quote))) \<and>
   split_args_text_to_list
     (''a, b=[1,2], c={'' @ [sq] @ ''x'' @ [sq] @ '':1}, d: int = 3'') =
     Some [''a'', '' b=[1,2]'', '' c={'' @ [sq] @ ''x'' @ [sq] @ '':1}'', '' d: int = 3'']"
proof (intro conjI impI)
  assume "find_quote_position text = Inr pos_quote \<and>
    find_bracket_position text (CHR ''('') (CHR '')'') pos_quote = Inr pos_round \<and>
    find_bracket_position text (CHR ''{'') (CHR ''}'') pos_quote = Inr pos_curly \<and>
    find_bracket_position text (CHR ''['') (CHR '']'') pos_quote = Inr pos_square"
  then show "split_args_text_to_list text =
      Some (segments text 0 (split_points text pos_round pos_curly pos_square pos_quote))"
    by (intro split_args_text_to_list_eq) simp_all
next
  show "split_args_text_to_list
     (''a, b=[1,2], c={'' @ [sq] @ ''x'' @ [sq] @ '':1}, d: int = 3'') =
     Some [''a'', '' b=[1,2]'', '' c={'' @ [sq] @ ''x'' @ [sq] @ '':1}'', '' d: int = 3'']"
    by code_simp
qed

theorem split_only_at_top_level_commas_witness:
  "find_quote_position ''f(a,b), [c,d], e'' = Inr [] \<and>
   find_bracket_position ''f(a,b), [c,d], e'' (CHR ''('') (CHR '')'') [] = Inr [(1, 5)] \<and>
   find_bracket_position ''f(a,b), [c,d], e'' (CHR ''{'') (CHR ''}'') [] = Inr [] \<and>
   find_bracket_position ''f(a,b), [c,d], e'' (CHR ''['') (CHR '']'') [] = Inr [(8, 12)] \<and>
   split_points ''f(a,b), [c,d], e'' [(1, 5)] [] [(8, 12)] [] = [6, 13] \<and>
   split_args_text_to_list ''f(a,b), [c,d], e'' = Some [''f(a,b)'', '' [c,d]'', '' e'']"
proof -
  let ?t = "''f(a,b), [c,d], e''"
  have q: "find_quote_position ?t = Inr []" by code_simp
  have r: "find_bracket_position ?t (CHR ''('') (CHR '')'') [] = Inr [(1, 5)]" by code_simp
  have c: "find_bracket_position ?t (CHR ''{'') (CHR ''}'') [] = Inr []" by code_simp
  have s: "find_bracket_position ?t (CHR ''['') (CHR '']'') [] = Inr [(8, 12)]" by code_simp
  have p: "split_points ?t [(1, 5)] [] [(8, 12)] [] = [6, 13]" by code_simp
  have g: "segments ?t 0 [6, 13] = [''f(a,b)'', '' [c,d]'', '' e'']" by code_simp
  have "split_args_text_to_list ?t = Some (segments ?t 0 (split_points ?t [(1, 5)] [] [(8, 12)] []))"
    using split_only_at_top_level_commas [of ?t "[]" "[(1, 5)]" "[]" "[(8, 12)]"] q r c s
    by simp
  with q r c s p g show ?thesis by simp
qed

text \<open>
  Claim C6, as amended. When the four scans of a text succeed, the result of the splitter
  is one segment for every split point, followed by the text after the last split point
  (the whole text when there is none) if and only if that text is not empty. The empty
  text gives no segment.
\<close>

theorem trailing_segment_included_when_nonempty:
  "(find_quote_position text = Inr pos_quote \<and>
    find_bracket_position text (CHR ''('') (CHR '')'') pos_quote = Inr pos_round \<and>
    find_bracket_position text (CHR ''{'') (CHR ''}'') pos_quote = Inr pos_curly \<and>
    find_bracket_position text (CHR ''['') (CHR '']'') pos_quote = Inr pos_square \<longrightarrow>
    (let pts = split_points text pos_round pos_curly pos_square pos_quote;
         start = (if pts = [] then 0 else Suc (last pts))
     in \<exists>front. length front = length pts \<and>
          split_args_text_to_list text =
            Some (front @ (if start < length text then [drop start text] else [])))) \<and>
   split_args_text_to_list [] = Some []"
proof (intro conjI impI)
  assume a: "find_quote_position text = Inr pos_quote \<and>
    find_bracket_position text (CHR ''('') (CHR '')'') pos_quote = Inr pos_round \<and>
    find_bracket_position text (CHR ''{'') (CHR ''}'') pos_quote = Inr pos_curly \<and>
    find_bracket_position text (CHR ''['') (CHR '']'') pos_quote = Inr pos_square"
  let ?pts = "split_points text pos_round pos_curly pos_square pos_quote"
  have e: "split_args_text_to_list text = Some (segments text 0 ?pts)"
    using a by (intro split_args_text_to_list_eq) simp_all
  from segments_front [of ?pts "text" 0] obtain front where
    "length front = length ?pts"
    "segments text 0 ?pts =
       front @ (if (if ?pts = [] then 0 else Suc (last ?pts)) < length text
                then [drop (if ?pts = [] then 0 else Suc (last ?pts)) text] else [])"
    by blast
  with e show "let pts = ?pts; start = (if pts = [] then 0 else Suc (last pts))
     in \<exists>front. length front = length pts \<and>
          split_args_text_to_list text =
            Some (front @ (if start < length text then [drop start text] else []))"
    unfolding Let_def by auto
next
  show "split_args_text_to_list [] = Some []" by code_simp
qed

theorem trailing_segment_included_when_nonempty_witness:
  "find_quote_position ''a, b'' = Inr [] \<and>
   split_points ''a, b'' [] [] [] [] = [1] \<and>
   (\<exists>front. length front = 1 \<and> split_args_text_to_list ''a, b'' = Some (front @ ['' b'']))"
proof -
  let ?t = "''a, b''"
  have q: "find_quote_position ?t = Inr []" by code_simp
  have r: "find_bracket_position ?t (CHR ''('') (CHR '')'') [] = Inr []" by code_simp
  have c: "find_bracket_position ?t (CHR ''{'') (CHR ''}'') [] = Inr []" by code_simp
  have s: "find_bracket_position ?t (CHR ''['') (CHR '']'') [] = Inr []" by code_simp
  have p: "split_points ?t [] [] [] [] = [1]" by code_simp
  have d: "drop (Suc 1) ?t = '' b''" by simp
  show ?thesis
    using trailing_segment_included_when_nonempty [of ?t "[]" "[]" "[]" "[]"] q r c s d
    unfolding p Let_def by simp
qed

text \<open>
  Claim C6 as stated fails when the text ends with a split point: for \<open>a,\<close> the text
  after the last split point is empty and is not among the segments returned.
\<close>

theorem trailing_segment_always_included_counterexample:
  "find_quote_position ''a,'' = Inr [] \<and>
   find_bracket_position ''a,'' (CHR ''('') (CHR '')'') [] = Inr [] \<and>
   find_bracket_position ''a,'' (CHR ''{'') (CHR ''}'') [] = Inr [] \<and>
   find_bracket_position ''a,'' (CHR ''['') (CHR '']'') [] = Inr [] \<and>
   split_points ''a,'' [] [] [] [] = [1] \<and>
   drop (Suc 1) ''a,'' = [] \<and>
   split_args_text_to_list ''a,'' = Some [''a''] \<and>
   [] \<notin> set [''a'']"
  by code_simp


end
